theory Spec2Isabelle
  imports Main "HOL-Library.Sublist"
begin

section \<open>Errors\<close>

text \<open>
  Every exception of \<^verbatim>\<open>scvid/data/distributed_anndata.py\<close> is a value. The constructors
  carry the names of the specification's taxonomy; the Python exception raised at each
  site is:
  \<^item> \<open>ConfigurationError\<close>: the two \<^verbatim>\<open>ValueError\<close>s of the constructor (lines 97 and 101);
  \<^item> \<open>CacheCapacityError\<close>: the failed \<^verbatim>\<open>assert\<close> of \<^verbatim>\<open>materialize\<close> (line 159);
  \<^item> \<open>ShardSizeMismatchError\<close>: the failed \<^verbatim>\<open>assert\<close> of \<^verbatim>\<open>LazyAnnData.adata\<close> (line 279);
  \<^item> \<open>SchemaError\<close>, \<open>SchemaMismatchError\<close>: raised by the schema class;
  \<^item> \<open>StorageUnavailableError\<close>: any failure of the file reader;
  \<^item> \<open>TypeError\<close>: the comparison \<^verbatim>\<open>len(indices) <= None\<close> (line 159);
  \<^item> \<open>IndexError\<close>, \<open>KeyError\<close>, \<open>AttributeError\<close>: as in Python;
  \<^item> \<open>AssertionError\<close>: the remaining \<^verbatim>\<open>assert\<close>s of the constructor (lines 110 and 126).
\<close>

datatype error =
    ConfigurationError
  | CacheCapacityError
  | ShardSizeMismatchError
  | SchemaError
  | SchemaMismatchError
  | StorageUnavailableError
  | TypeError
  | IndexError
  | KeyError
  | AttributeError
  | AssertionError

section \<open>Shard content and the file reader\<close>

text \<open>
  Modelled from the spec: the content type \<^verbatim>\<open>AnnData\<close> belongs to the anndata library and
  the reader \<^verbatim>\<open>read_h5ad_file\<close> to \<^verbatim>\<open>scvid/data/read.py\<close>; neither is among the sources.
  The spec (section 6) describes the content as a structured table exposing named
  attribute groups, each a mapping from column name to a typed array-like value, plus a
  row count. A column is its name, its dtype and its cells; a group is a list of columns.
  The reader is a parameter of every operation that loads a file: a function from the
  file name to the content, or \<open>None\<close> when the file cannot be read.
\<close>

type_synonym column = "string \<times> string \<times> int list"

type_synonym attr_value = "column list"

record AnnData =
  adata_n_obs :: int
  attrs :: "(string \<times> attr_value) list"

type_synonym reader = "string \<Rightarrow> AnnData option"

definition getattr_adata :: "AnnData \<Rightarrow> string \<Rightarrow> attr_value option" where
  "getattr_adata a attr = map_of (attrs a) attr"

definition hasattr_adata :: "AnnData \<Rightarrow> string \<Rightarrow> bool" where
  "hasattr_adata a attr = (getattr_adata a attr \<noteq> None)"

section \<open>Schema\<close>

text \<open>\<^verbatim>\<open>LazyAnnData._lazy_attrs\<close> (line 223): the tracked structural attribute groups.\<close>

definition lazy_attrs :: "string list" where
  "lazy_attrs = [''obs'', ''obsm'', ''layers'', ''var'', ''varm'', ''varp'', ''var_names'']"

text \<open>
  Modelled from the spec: the class \<^verbatim>\<open>AnnDataSchema\<close> of \<^verbatim>\<open>scvid/data/schema.py\<close> is not
  among the sources. Following section 4.1 of the spec: the schema is inferred from one
  reference content and keeps, for every tracked attribute group, a zero-row stand-in
  (the placeholder, \<^verbatim>\<open>attr_values\<close>); inference fails with \<open>SchemaError\<close> when a tracked
  group is missing; validation compares the column names and dtypes of every tracked
  group of a candidate with the reference and fails with \<open>SchemaMismatchError\<close> on any
  divergence; the row count is not checked.
\<close>

record AnnDataSchema =
  attr_values :: "(string \<times> attr_value) list"

definition signature_of :: "attr_value \<Rightarrow> (string \<times> string) list" where
  "signature_of cols = map (\<lambda>(name, dtype, cells). (name, dtype)) cols"

definition placeholder_of :: "attr_value \<Rightarrow> attr_value" where
  "placeholder_of cols = map (\<lambda>(name, dtype, cells). (name, dtype, [])) cols"

definition AnnDataSchema_init :: "AnnData \<Rightarrow> error + AnnDataSchema" where
  "AnnDataSchema_init a =
     (if list_all (hasattr_adata a) lazy_attrs
      then Inr \<lparr>attr_values =
             map (\<lambda>attr. (attr, placeholder_of (the (getattr_adata a attr)))) lazy_attrs\<rparr>
      else Inl SchemaError)"

definition conforms :: "AnnDataSchema \<Rightarrow> AnnData \<Rightarrow> bool" where
  "conforms s a =
     list_all (\<lambda>attr. map_option signature_of (getattr_adata a attr) =
                      map_option signature_of (map_of (attr_values s) attr)) lazy_attrs"

definition validate_anndata :: "AnnDataSchema \<Rightarrow> AnnData \<Rightarrow> error option" where
  "validate_anndata s a = (if conforms s a then None else Some SchemaMismatchError)"

section \<open>The bounded cache\<close>

text \<open>
  Modelled from the spec: the class \<^verbatim>\<open>LRU\<close> is imported from \<^verbatim>\<open>boltons.cacheutils\<close> and is
  not among the sources. Following sections 3 and 4.2 of the spec: a capacity (unbounded
  when unset), a mapping from key to content and a recency order. The entries are kept
  in eviction order: the head is the least recently touched entry, the last one the most
  recently touched. A lookup that hits moves the entry to the most recent position; a
  presence check changes nothing; an insertion puts the entry at the most recent position
  and, when the capacity is set and now exceeded, evicts the least recently touched
  entry. The capacity is a count of resident shards, hence a natural number.

  The source uses three operations of the class: \<^verbatim>\<open>key in cache\<close> (line 268),
  \<^verbatim>\<open>cache[key]\<close> (line 274) and \<^verbatim>\<open>cache[key] = value\<close> (lines 116 and 285). Each returns
  the cache it leaves behind; the insertion also returns the key it evicted, if any.
\<close>

record ('k, 'v) LRU =
  max_size :: "nat option"
  entries :: "('k \<times> 'v) list"

definition LRU_init :: "nat option \<Rightarrow> ('k, 'v) LRU" where
  "LRU_init m = \<lparr>max_size = m, entries = []\<rparr>"

definition LRU_contains :: "('k, 'v) LRU \<Rightarrow> 'k \<Rightarrow> bool \<times> ('k, 'v) LRU" where
  "LRU_contains c k = (k \<in> set (map fst (entries c)), c)"

definition LRU_getitem :: "('k, 'v) LRU \<Rightarrow> 'k \<Rightarrow> (error + 'v) \<times> ('k, 'v) LRU" where
  "LRU_getitem c k =
     (case map_of (entries c) k of
        None \<Rightarrow> (Inl KeyError, c)
      | Some v \<Rightarrow> (Inr v, c\<lparr>entries := filter (\<lambda>e. fst e \<noteq> k) (entries c) @ [(k, v)]\<rparr>))"

definition LRU_setitem :: "('k, 'v) LRU \<Rightarrow> 'k \<Rightarrow> 'v \<Rightarrow> 'k option \<times> ('k, 'v) LRU" where
  "LRU_setitem c k v =
     (let es = filter (\<lambda>e. fst e \<noteq> k) (entries c) @ [(k, v)] in
      case max_size c of
        None \<Rightarrow> (None, c\<lparr>entries := es\<rparr>)
      | Some m \<Rightarrow>
          if m < length es then (Some (fst (hd es)), c\<lparr>entries := tl es\<rparr>)
          else (None, c\<lparr>entries := es\<rparr>))"

text \<open>The keys in eviction order (next to be evicted first), and the two invariants.\<close>

definition eviction_order :: "('k, 'v) LRU \<Rightarrow> 'k list" where
  "eviction_order c = map fst (entries c)"

definition resident :: "('k, 'v) LRU \<Rightarrow> 'k \<Rightarrow> bool" where
  "resident c k = (k \<in> set (eviction_order c))"

definition within_capacity :: "('k, 'v) LRU \<Rightarrow> bool" where
  "within_capacity c =
     (case max_size c of None \<Rightarrow> True | Some m \<Rightarrow> length (entries c) \<le> m)"

section \<open>Shards: \<^verbatim>\<open>LazyAnnData\<close>\<close>

text \<open>
  A shard holds its file name, its half-open row range and the schema. Its fourth
  attribute is a reference to the collection's cache, shared by all shards (line 120):
  the model keeps that one cache in the collection and hands it to every shard
  operation, which returns it updated.

  The observable effects of an operation are returned as a list of events, in the order
  they happen: a call of the reader, a cache hit, an insertion, an eviction.
\<close>

record LazyAnnData =
  filename :: string
  lazy_limits :: "int \<times> int"
  lazy_schema :: AnnDataSchema

datatype event = Read string | Hit string | Insert string | Evict string

type_synonym shard_cache = "(string, AnnData) LRU"

definition n_obs :: "LazyAnnData \<Rightarrow> int" where
  "n_obs sh = snd (lazy_limits sh) - fst (lazy_limits sh)"

definition cached :: "LazyAnnData \<Rightarrow> shard_cache \<Rightarrow> bool \<times> shard_cache" where
  "cached sh c = LRU_contains c (filename sh)"

definition adata ::
  "reader \<Rightarrow> LazyAnnData \<Rightarrow> shard_cache \<Rightarrow> (error + AnnData) \<times> shard_cache \<times> event list" where
  "adata read_h5ad_file sh c =
     (case LRU_getitem c (filename sh) of
        (Inr a, c1) \<Rightarrow> (Inr a, c1, [Hit (filename sh)])
      | (Inl _, c1) \<Rightarrow>
          (case read_h5ad_file (filename sh) of
             None \<Rightarrow> (Inl StorageUnavailableError, c1, [Read (filename sh)])
           | Some a \<Rightarrow>
               if n_obs sh \<noteq> adata_n_obs a
               then (Inl ShardSizeMismatchError, c1, [Read (filename sh)])
               else
                 (case validate_anndata (lazy_schema sh) a of
                    Some e \<Rightarrow> (Inl e, c1, [Read (filename sh)])
                  | None \<Rightarrow>
                      (case LRU_setitem c1 (filename sh) a of
                         (None, c2) \<Rightarrow>
                           (Inr a, c2, [Read (filename sh), Insert (filename sh)])
                       | (Some k, c2) \<Rightarrow>
                           (Inr a, c2,
                            [Read (filename sh), Insert (filename sh), Evict k])))))"




section \<open>The collection\<close>

text \<open>
  The attributes of \<^verbatim>\<open>DistributedAnnDataCollection\<close> that the operations below read or
  write. \<^verbatim>\<open>max_cache_size\<close> is \<^verbatim>\<open>Optional[int]\<close> in the source; it is a number of shards,
  here a natural number or \<open>None\<close>. The other attributes kept by the parent class
  (\<^verbatim>\<open>label\<close>, \<^verbatim>\<open>index_unique\<close>, \<^verbatim>\<open>convert\<close>, \<^verbatim>\<open>indices_strict\<close>) are not read by any of these
  operations and are left out.
\<close>

record DistributedAnnDataCollection =
  filenames :: "string list"
  limits :: "int list"
  max_cache_size :: "nat option"
  cache_size_strictly_enforced :: bool
  schema :: AnnDataSchema
  keys :: "string list"
  cache :: shard_cache
  adatas :: "LazyAnnData list"

text \<open>Python list indexing: a negative index counts from the end (lines 167 to 172).\<close>

definition list_getitem :: "'a list \<Rightarrow> int \<Rightarrow> error + 'a" where
  "list_getitem xs i =
     (if 0 \<le> i \<and> i < int (length xs) then Inr (xs ! nat i)
      else if i < 0 \<and> - int (length xs) \<le> i then Inr (xs ! nat (int (length xs) + i))
      else Inl IndexError)"

text \<open>
  The list comprehension shared by \<^verbatim>\<open>__init__\<close> (lines 119 to 122) and \<^verbatim>\<open>__setstate__\<close>
  (lines 202 to 207): one shard per triple of \<^verbatim>\<open>zip([0] + limits, limits, filenames)\<close>.
\<close>

definition lazy_adatas :: "AnnDataSchema \<Rightarrow> int list \<Rightarrow> string list \<Rightarrow> LazyAnnData list" where
  "lazy_adatas s ls fs =
     map (\<lambda>(start, end, f). \<lparr>filename = f, lazy_limits = (start, end), lazy_schema = s\<rparr>)
       (zip (0 # ls) (zip ls fs))"

text \<open>
  The parent class \<^verbatim>\<open>AnnCollection\<close> (anndata library, not among the sources) keeps the
  shards as \<^verbatim>\<open>self.adatas\<close> and the running sums of their row counts as \<^verbatim>\<open>self.limits\<close>.
  Its constructor runs under \<^verbatim>\<open>lazy_getattr()\<close> (line 127), so every attribute it reads from
  a shard is answered by the first branch of \<^verbatim>\<open>__getattr__\<close>.
\<close>

fun running_sums :: "int \<Rightarrow> int list \<Rightarrow> int list" where
  "running_sums acc [] = []"
| "running_sums acc (x # xs) = (acc + x) # running_sums (acc + x) xs"

definition AnnCollection_limits :: "LazyAnnData list \<Rightarrow> int list" where
  "AnnCollection_limits shards = running_sums 0 (map n_obs shards)"

text \<open>
  \<^verbatim>\<open>__init__\<close> (lines 78 to 139). The file names are a list or a pattern expanded by
  \<^verbatim>\<open>braceexpand\<close> (external, a parameter). Lines 104 to 109 compute the boundaries.
\<close>

datatype filenames_arg = Pattern string | Names "string list"

definition expand_filenames :: "(string \<Rightarrow> string list) \<Rightarrow> filenames_arg \<Rightarrow> string list" where
  "expand_filenames braceexpand fa = (case fa of Pattern p \<Rightarrow> braceexpand p | Names fs \<Rightarrow> fs)"

definition compute_limits ::
  "nat \<Rightarrow> int list option \<Rightarrow> int option \<Rightarrow> int option \<Rightarrow> int list" where
  "compute_limits n limits_arg shard_size last_shard_size =
     (case shard_size of
        Some sz \<Rightarrow>
          (let ls = map (\<lambda>i. sz * (int i + 1)) [0..<n] in
           case last_shard_size of
             Some lsz \<Rightarrow> ls[length ls - 1 := last ls - sz + lsz]
           | None \<Rightarrow> ls)
      | None \<Rightarrow> (case limits_arg of Some ls \<Rightarrow> ls | None \<Rightarrow> []))"

definition init ::
  "(string \<Rightarrow> string list) \<Rightarrow> reader \<Rightarrow> filenames_arg \<Rightarrow> int list option \<Rightarrow> int option \<Rightarrow>
     int option \<Rightarrow> nat option \<Rightarrow> bool \<Rightarrow> string list option \<Rightarrow>
     (error + DistributedAnnDataCollection) \<times> event list" where
  "init braceexpand read_h5ad_file fa limits_arg shard_size last_shard_size
        max_cache_size_arg strict keys_arg =
     (let fs = expand_filenames braceexpand fa in
      if fs = [] then (Inl IndexError, [])
      else if (limits_arg = None) = (shard_size = None) then (Inl ConfigurationError, [])
      else if shard_size = None \<and> last_shard_size \<noteq> None then (Inl ConfigurationError, [])
      else
        (let ls = compute_limits (length fs) limits_arg shard_size last_shard_size in
         if length ls \<noteq> length fs then (Inl AssertionError, [])
         else
           (case read_h5ad_file (hd fs) of
              None \<Rightarrow> (Inl StorageUnavailableError, [Read (hd fs)])
            | Some adata0 \<Rightarrow>
                (case LRU_setitem (LRU_init max_cache_size_arg) (hd fs) adata0 of
                   (ev, c) \<Rightarrow>
                     (let evs = [Read (hd fs), Insert (hd fs)] @
                                (case ev of None \<Rightarrow> [] | Some k \<Rightarrow> [Evict k]) in
                      case AnnDataSchema_init adata0 of
                        Inl e \<Rightarrow> (Inl e, evs)
                      | Inr s \<Rightarrow>
                          (let shards = lazy_adatas s ls fs;
                               ks = (case keys_arg of None \<Rightarrow> fs | Some ks \<Rightarrow> ks) in
                           if length ks \<noteq> length fs then (Inl AssertionError, evs)
                           else
                             (Inr \<lparr>filenames = fs,
                                   limits = AnnCollection_limits shards,
                                   max_cache_size = max_cache_size_arg,
                                   cache_size_strictly_enforced = strict,
                                   schema = s,
                                   keys = ks,
                                   cache = c,
                                   adatas = shards\<rparr>, evs)))))))"

text \<open>
  \<^verbatim>\<open>materialize\<close> (lines 150 to 173). The two loops differ only in the polarity of the
  test on \<^verbatim>\<open>cached\<close>: \<open>fetch_pass True\<close> is the loop of lines 166 to 168 and
  \<open>fetch_pass False\<close> the loop of lines 170 to 172. An exception leaves the cache as it
  is at that moment.
\<close>

datatype indices_arg = Index int | Indices "int list"

definition indices_of :: "indices_arg \<Rightarrow> int list" where
  "indices_of ia = (case ia of Index i \<Rightarrow> [i] | Indices is \<Rightarrow> is)"

definition strict_check :: "DistributedAnnDataCollection \<Rightarrow> nat \<Rightarrow> error option" where
  "strict_check coll n =
     (if cache_size_strictly_enforced coll then
        (case max_cache_size coll of
           None \<Rightarrow> Some TypeError
         | Some m \<Rightarrow> if n \<le> m then None else Some CacheCapacityError)
      else None)"

fun fetch_pass ::
  "bool \<Rightarrow> reader \<Rightarrow> LazyAnnData list \<Rightarrow> (nat \<times> int) list \<Rightarrow> AnnData option list \<Rightarrow>
     shard_cache \<Rightarrow> (error + AnnData option list) \<times> shard_cache \<times> event list" where
  "fetch_pass want read_h5ad_file shards [] out c = (Inr out, c, [])"
| "fetch_pass want read_h5ad_file shards ((i, idx) # rest) out c =
     (case list_getitem shards idx of
        Inl e \<Rightarrow> (Inl e, c, [])
      | Inr sh \<Rightarrow>
          (case cached sh c of
             (b, c1) \<Rightarrow>
               if b = want then
                 (case adata read_h5ad_file sh c1 of
                    (Inl e, c2, evs) \<Rightarrow> (Inl e, c2, evs)
                  | (Inr a, c2, evs) \<Rightarrow>
                      (case fetch_pass want read_h5ad_file shards rest (out[i := Some a]) c2 of
                         (r, c3, evs') \<Rightarrow> (r, c3, evs @ evs')))
               else fetch_pass want read_h5ad_file shards rest out c1))"

definition materialize ::
  "reader \<Rightarrow> DistributedAnnDataCollection \<Rightarrow> indices_arg \<Rightarrow>
     (error + AnnData option list) \<times> DistributedAnnDataCollection \<times> event list" where
  "materialize read_h5ad_file coll ia =
     (let indices = indices_of ia in
      case strict_check coll (length indices) of
        Some e \<Rightarrow> (Inl e, coll, [])
      | None \<Rightarrow>
          (case fetch_pass True read_h5ad_file (adatas coll) (enumerate 0 indices)
                  (replicate (length indices) None) (cache coll) of
             (Inl e, c1, evs1) \<Rightarrow> (Inl e, coll\<lparr>cache := c1\<rparr>, evs1)
           | (Inr out1, c1, evs1) \<Rightarrow>
               (case fetch_pass False read_h5ad_file (adatas coll) (enumerate 0 indices) out1 c1 of
                  (r, c2, evs2) \<Rightarrow> (r, coll\<lparr>cache := c2\<rparr>, evs1 @ evs2))))"

text \<open>
  \<^verbatim>\<open>__getstate__\<close> (lines 193 to 197) copies the attributes and deletes \<^verbatim>\<open>cache\<close> and
  \<^verbatim>\<open>adatas\<close>; \<^verbatim>\<open>__setstate__\<close> (lines 199 to 207) restores the attributes, makes a new
  cache and rebuilds the shards.
\<close>

record pickled_state =
  state_filenames :: "string list"
  state_limits :: "int list"
  state_max_cache_size :: "nat option"
  state_cache_size_strictly_enforced :: bool
  state_schema :: AnnDataSchema
  state_keys :: "string list"

definition getstate :: "DistributedAnnDataCollection \<Rightarrow> pickled_state" where
  "getstate coll =
     \<lparr>state_filenames = filenames coll,
      state_limits = limits coll,
      state_max_cache_size = max_cache_size coll,
      state_cache_size_strictly_enforced = cache_size_strictly_enforced coll,
      state_schema = schema coll,
      state_keys = keys coll\<rparr>"

definition setstate :: "pickled_state \<Rightarrow> DistributedAnnDataCollection" where
  "setstate st =
     \<lparr>filenames = state_filenames st,
      limits = state_limits st,
      max_cache_size = state_max_cache_size st,
      cache_size_strictly_enforced = state_cache_size_strictly_enforced st,
      schema = state_schema st,
      keys = state_keys st,
      cache = LRU_init (state_max_cache_size st),
      adatas = lazy_adatas (state_schema st) (state_limits st) (state_filenames st)\<rparr>"

section \<open>Sequences of operations\<close>

text \<open>
  A sequence of reads of \<^verbatim>\<open>LazyAnnData.adata\<close> on one cache, and a sequence of calls of
  \<^verbatim>\<open>materialize\<close> on one collection. An exception ends the call that raised it and leaves
  the cache as it is at that moment; the next call goes on from there.
\<close>

fun adata_seq :: "reader \<Rightarrow> LazyAnnData list \<Rightarrow> shard_cache \<Rightarrow> shard_cache" where
  "adata_seq read_h5ad_file [] c = c"
| "adata_seq read_h5ad_file (sh # shs) c =
     adata_seq read_h5ad_file shs (fst (snd (adata read_h5ad_file sh c)))"

fun materialize_seq ::
  "reader \<Rightarrow> DistributedAnnDataCollection \<Rightarrow> indices_arg list \<Rightarrow> DistributedAnnDataCollection" where
  "materialize_seq read_h5ad_file coll [] = coll"
| "materialize_seq read_h5ad_file coll (ia # ias) =
     materialize_seq read_h5ad_file (fst (snd (materialize read_h5ad_file coll ia))) ias"

text \<open>
  The file names at the requested indices, and the events of one kind in a list of
  events.
\<close>

definition requested :: "LazyAnnData list \<Rightarrow> int list \<Rightarrow> string list" where
  "requested shards indices =
     concat (map (\<lambda>idx. case list_getitem shards idx of
                           Inr sh \<Rightarrow> [filename sh] | Inl e \<Rightarrow> []) indices)"

fun is_Hit :: "event \<Rightarrow> bool" where
  "is_Hit (Hit f) = True"
| "is_Hit e = False"

fun reads_of :: "event list \<Rightarrow> string list" where
  "reads_of [] = []"
| "reads_of (Read f # evs) = f # reads_of evs"
| "reads_of (e # evs) = reads_of evs"

fun evicted_of :: "event list \<Rightarrow> string list" where
  "evicted_of [] = []"
| "evicted_of (Evict f # evs) = f # evicted_of evs"
| "evicted_of (e # evs) = evicted_of evs"

text \<open>
  One pass of \<^verbatim>\<open>materialize\<close> that raises nothing, as a relation between the shards at
  the requested indices, the cache before, the cache after and the events: a shard
  whose presence in the cache differs from the polarity of the pass is skipped, any
  other is read through \<^verbatim>\<open>adata\<close>. It is what \<open>fetch_pass\<close> computes when it returns a
  result (lemma \<open>fetch_pass_pass\<close>).
\<close>

inductive pass ::
  "bool \<Rightarrow> reader \<Rightarrow> LazyAnnData list \<Rightarrow> shard_cache \<Rightarrow> shard_cache \<Rightarrow> event list \<Rightarrow> bool"
  for want :: bool and read_h5ad_file :: reader where
  pass_done: "pass want read_h5ad_file [] c c []"
| pass_skip:
    "fst (cached sh c) \<noteq> want \<Longrightarrow> pass want read_h5ad_file shs c c' evs \<Longrightarrow>
     pass want read_h5ad_file (sh # shs) c c' evs"
| pass_fetch:
    "fst (cached sh c) = want \<Longrightarrow> adata read_h5ad_file sh c = (Inr a, c2, evs1) \<Longrightarrow>
     pass want read_h5ad_file shs c2 c' evs \<Longrightarrow>
     pass want read_h5ad_file (sh # shs) c c' (evs1 @ evs)"

code_pred pass .

text \<open>
  The keys of \<open>S\<close> sit at the recent end of an eviction order: once a key of \<open>S\<close>
  occurs, only keys of \<open>S\<close> follow.
\<close>

fun tail_in :: "'k set \<Rightarrow> 'k list \<Rightarrow> bool" where
  "tail_in S [] = True"
| "tail_in S (k # ks) = (if k \<in> S then set ks \<subseteq> S else tail_in S ks)"

section \<open>Concrete collections\<close>

text \<open>
  Small concrete inputs on which the operations are evaluated: files \<open>s0\<close> to \<open>s4\<close> of
  ten rows each with one column per tracked group, a file \<open>bad\<close> whose column has another
  name, and a file \<open>short\<close> of seven rows.
\<close>

definition demo_group :: attr_value where
  "demo_group = [(''g'', ''f'', [1])]"

definition demo_adata :: "int \<Rightarrow> AnnData" where
  "demo_adata n = \<lparr>adata_n_obs = n, attrs = map (\<lambda>attr. (attr, demo_group)) lazy_attrs\<rparr>"

definition bad_adata :: AnnData where
  "bad_adata = \<lparr>adata_n_obs = 10, attrs = map (\<lambda>attr. (attr, [(''h'', ''f'', [1])])) lazy_attrs\<rparr>"

definition demo_files :: "string list" where
  "demo_files = [''s0'', ''s1'', ''s2'', ''s3'', ''s4'']"

definition demo_reader :: reader where
  "demo_reader f =
     (if f \<in> set demo_files then Some (demo_adata 10)
      else if f = ''bad'' then Some bad_adata
      else if f = ''short'' then Some (demo_adata 7)
      else None)"

definition demo_braceexpand :: "string \<Rightarrow> string list" where
  "demo_braceexpand p = [p]"

definition demo_schema :: AnnDataSchema where
  "demo_schema = \<lparr>attr_values = map (\<lambda>attr. (attr, placeholder_of demo_group)) lazy_attrs\<rparr>"

definition demo_shard :: "string \<Rightarrow> int \<Rightarrow> LazyAnnData" where
  "demo_shard f start = \<lparr>filename = f, lazy_limits = (start, start + 10), lazy_schema = demo_schema\<rparr>"

text \<open>A collection of ten-row shards over the given files, with the cache given.\<close>

fun demo_limits :: "int \<Rightarrow> string list \<Rightarrow> int list" where
  "demo_limits start [] = []"
| "demo_limits start (f # fs) = (start + 10) # demo_limits (start + 10) fs"

fun demo_shards :: "int \<Rightarrow> string list \<Rightarrow> LazyAnnData list" where
  "demo_shards start [] = []"
| "demo_shards start (f # fs) = demo_shard f start # demo_shards (start + 10) fs"

definition demo_collection ::
  "string list \<Rightarrow> nat option \<Rightarrow> bool \<Rightarrow> shard_cache \<Rightarrow> DistributedAnnDataCollection" where
  "demo_collection fs m strict c =
     \<lparr>filenames = fs,
      limits = demo_limits 0 fs,
      max_cache_size = m,
      cache_size_strictly_enforced = strict,
      schema = demo_schema,
      keys = fs,
      cache = c,
      adatas = demo_shards 0 fs\<rparr>"

section \<open>Properties of the cache\<close>

lemma LRU_getitem_miss:
  "\<not> resident c k \<Longrightarrow> LRU_getitem c k = (Inl KeyError, c)"
  by (simp add: LRU_getitem_def resident_def eviction_order_def map_of_eq_None_iff split: option.splits)

lemma LRU_getitem_hit:
  "map_of (entries c) k = Some v \<Longrightarrow>
   LRU_getitem c k = (Inr v, c\<lparr>entries := filter (\<lambda>e. fst e \<noteq> k) (entries c) @ [(k, v)]\<rparr>)"
  by (simp add: LRU_getitem_def)

lemma resident_map_of: "resident c k \<longleftrightarrow> (\<exists>v. map_of (entries c) k = Some v)"
proof -
  have "resident c k \<longleftrightarrow> map_of (entries c) k \<noteq> None"
    by (simp add: resident_def eviction_order_def map_of_eq_None_iff)
  then show ?thesis by auto
qed

lemma max_size_getitem [simp]: "max_size (snd (LRU_getitem c k)) = max_size c"
  by (simp add: LRU_getitem_def split: option.splits)

lemma max_size_setitem [simp]: "max_size (snd (LRU_setitem c k v)) = max_size c"
  by (simp add: LRU_setitem_def Let_def split: option.splits)

lemma filter_key_absent: "k \<notin> fst ` set es \<Longrightarrow> filter (\<lambda>e. fst e \<noteq> k) es = es"
  by (induction es) auto

lemma length_filter_key:
  "distinct (map fst es) \<Longrightarrow> k \<in> fst ` set es \<Longrightarrow> Suc (length (filter (\<lambda>e. fst e \<noteq> k) es)) = length es"
proof (induction es)
  case Nil
  then show ?case by simp
next
  case (Cons e es)
  show ?case
  proof (cases "fst e = k")
    case True
    with Cons.prems have "k \<notin> fst ` set es" by auto
    then show ?thesis using True by (simp add: filter_key_absent)
  next
    case False
    with Cons show ?thesis by auto
  qed
qed

lemma distinct_touch:
  "distinct (map fst es) \<Longrightarrow> distinct (map fst (filter (\<lambda>e. fst e \<noteq> k) es @ [(k, v)]))"
  by (auto simp: distinct_map_filter)

lemma length_touch_le:
  "length (filter (\<lambda>e. fst e \<noteq> k) es @ [(k, v)]) \<le> Suc (length es)"
  by simp

lemma distinct_getitem:
  "distinct (eviction_order c) \<Longrightarrow> distinct (eviction_order (snd (LRU_getitem c k)))"
  unfolding eviction_order_def LRU_getitem_def
  by (cases "map_of (entries c) k") (simp_all add: distinct_touch del: map_append)

lemma distinct_setitem:
  "distinct (eviction_order c) \<Longrightarrow> distinct (eviction_order (snd (LRU_setitem c k v)))"
proof -
  assume d: "distinct (eviction_order c)"
  let ?es = "filter (\<lambda>e. fst e \<noteq> k) (entries c) @ [(k, v)]"
  have 1: "distinct (map fst ?es)" using d unfolding eviction_order_def by (rule distinct_touch)
  then have 2: "distinct (map fst (tl ?es))" by (simp only: map_tl distinct_tl)
  show ?thesis
    unfolding eviction_order_def LRU_setitem_def Let_def
    using 1 2 by (cases "max_size c") (simp_all del: map_append)
qed

lemma within_capacity_getitem:
  "distinct (eviction_order c) \<Longrightarrow> within_capacity c \<Longrightarrow> within_capacity (snd (LRU_getitem c k))"
proof -
  assume d: "distinct (eviction_order c)" and w: "within_capacity c"
  show ?thesis
  proof (cases "map_of (entries c) k")
    case None
    then show ?thesis using w by (simp add: LRU_getitem_def)
  next
    case (Some v)
    then have "k \<in> fst ` set (entries c)" by (metis map_of_eq_None_iff option.distinct(1))
    with d have "Suc (length (filter (\<lambda>e. fst e \<noteq> k) (entries c))) = length (entries c)"
      unfolding eviction_order_def by (rule length_filter_key)
    then show ?thesis using w Some
      by (simp add: LRU_getitem_def within_capacity_def split: option.splits)
  qed
qed

lemma within_capacity_setitem:
  "within_capacity c \<Longrightarrow> within_capacity (snd (LRU_setitem c k v))"
proof -
  assume w: "within_capacity c"
  define n where "n = length (filter (\<lambda>e. fst e \<noteq> k) (entries c))"
  have n: "n \<le> length (entries c)" unfolding n_def by simp
  show ?thesis
  proof (cases "max_size c")
    case None
    then show ?thesis by (simp add: LRU_setitem_def Let_def within_capacity_def)
  next
    case (Some m)
    with w have "length (entries c) \<le> m" by (simp add: within_capacity_def)
    with n have "n \<le> m" by simp
    then show ?thesis using Some
      by (simp add: LRU_setitem_def Let_def within_capacity_def n_def[symmetric])
  qed
qed

section \<open>Facts about the concrete collections\<close>

lemma demo_shard_simps [simp]:
  "filename (demo_shard f s) = f"
  "lazy_limits (demo_shard f s) = (s, s + 10)"
  "lazy_schema (demo_shard f s) = demo_schema"
  by (simp_all add: demo_shard_def)

lemma demo_adata_simps [simp]:
  "adata_n_obs (demo_adata n) = n"
  "adata_n_obs bad_adata = 10"
  by (simp_all add: demo_adata_def bad_adata_def)

lemma demo_reader_simps [simp]:
  "demo_reader ''s0'' = Some (demo_adata 10)"
  "demo_reader ''s1'' = Some (demo_adata 10)"
  "demo_reader ''s2'' = Some (demo_adata 10)"
  "demo_reader ''s3'' = Some (demo_adata 10)"
  "demo_reader ''s4'' = Some (demo_adata 10)"
  "demo_reader ''bad'' = Some bad_adata"
  "demo_reader ''short'' = Some (demo_adata 7)"
  by (simp_all add: demo_reader_def demo_files_def)

lemma demo_conforms [simp]:
  "conforms demo_schema (demo_adata n)"
  "\<not> conforms demo_schema bad_adata"
  by (simp_all add: conforms_def demo_schema_def bad_adata_def demo_adata_def
      lazy_attrs_def getattr_adata_def signature_of_def placeholder_of_def demo_group_def)

lemma LRU_init_simps [simp]:
  "max_size (LRU_init m) = m"
  "entries (LRU_init m) = []"
  "\<not> resident (LRU_init m) k"
  by (simp_all add: LRU_init_def resident_def eviction_order_def)

lemma demo_schema_init: "AnnDataSchema_init (demo_adata n) = Inr demo_schema"
  by (simp add: AnnDataSchema_init_def demo_adata_def demo_schema_def lazy_attrs_def
      hasattr_adata_def getattr_adata_def)

lemma demo_files_simps [simp]:
  "demo_files \<noteq> []" "hd demo_files = ''s0''" "length demo_files = 5"
  by (simp_all add: demo_files_def)


lemma demo_getattr [simp]:
  "getattr_adata (demo_adata n) ''obs'' = Some demo_group"
  by (simp add: getattr_adata_def demo_adata_def lazy_attrs_def)

section \<open>Properties of a shard\<close>

lemma adata_hit:
  "map_of (entries c) (filename sh) = Some a \<Longrightarrow>
   adata r sh c =
     (Inr a, c\<lparr>entries := filter (\<lambda>e. fst e \<noteq> filename sh) (entries c) @ [(filename sh, a)]\<rparr>,
      [Hit (filename sh)])"
  by (simp add: adata_def LRU_getitem_hit)

lemma adata_unreadable:
  "\<not> resident c (filename sh) \<Longrightarrow> r (filename sh) = None \<Longrightarrow>
   adata r sh c = (Inl StorageUnavailableError, c, [Read (filename sh)])"
  by (simp add: adata_def LRU_getitem_miss)

lemma adata_size_mismatch:
  "\<not> resident c (filename sh) \<Longrightarrow> r (filename sh) = Some a \<Longrightarrow> n_obs sh \<noteq> adata_n_obs a \<Longrightarrow>
   adata r sh c = (Inl ShardSizeMismatchError, c, [Read (filename sh)])"
  by (simp add: adata_def LRU_getitem_miss)

lemma adata_schema_mismatch:
  "\<not> resident c (filename sh) \<Longrightarrow> r (filename sh) = Some a \<Longrightarrow> n_obs sh = adata_n_obs a \<Longrightarrow>
   \<not> conforms (lazy_schema sh) a \<Longrightarrow>
   adata r sh c = (Inl SchemaMismatchError, c, [Read (filename sh)])"
  by (simp add: adata_def LRU_getitem_miss validate_anndata_def)

lemma adata_load:
  "\<not> resident c (filename sh) \<Longrightarrow> r (filename sh) = Some a \<Longrightarrow> n_obs sh = adata_n_obs a \<Longrightarrow>
   conforms (lazy_schema sh) a \<Longrightarrow>
   adata r sh c =
     (Inr a, snd (LRU_setitem c (filename sh) a),
      Read (filename sh) # Insert (filename sh) #
        (case fst (LRU_setitem c (filename sh) a) of None \<Rightarrow> [] | Some k \<Rightarrow> [Evict k]))"
  by (simp add: adata_def LRU_getitem_miss validate_anndata_def split: prod.splits option.splits)

lemma resident_setitem:
  "max_size c \<noteq> Some 0 \<Longrightarrow> resident (snd (LRU_setitem c k v)) k"
proof -
  assume m: "max_size c \<noteq> Some 0"
  define xs where "xs = filter (\<lambda>e. fst e \<noteq> k) (entries c)"
  have tl: "xs \<noteq> [] \<Longrightarrow> k \<in> fst ` set (tl (xs @ [(k, v)]))"
    by (cases xs) simp_all
  have all: "k \<in> fst ` set (xs @ [(k, v)])" by simp
  show ?thesis
  proof (cases "max_size c")
    case None
    then show ?thesis using all
      by (simp add: LRU_setitem_def Let_def resident_def eviction_order_def xs_def[symmetric])
  next
    case (Some n)
    with m have "0 < n" by simp
    then have "n < Suc (length xs) \<Longrightarrow> xs \<noteq> []" by auto
    then show ?thesis using Some tl all
      by (simp add: LRU_setitem_def Let_def resident_def eviction_order_def xs_def[symmetric]
          del: set_append)
  qed
qed

text \<open>
  C3. On a cache miss, \<^verbatim>\<open>LazyAnnData.adata\<close> reads the backing file and then: fails with
  \<open>ShardSizeMismatchError\<close> when the loaded row count differs from \<open>end - start\<close>,
  leaving the cache as it was; otherwise fails with \<open>SchemaMismatchError\<close> when the
  content does not conform to the schema, leaving the cache as it was; otherwise returns
  the content and inserts it into the cache. The content is inserted exactly when both
  checks pass.
\<close>

theorem adata_miss_validates:
  assumes "\<not> resident c (filename sh)" and "read_h5ad_file (filename sh) = Some a"
  shows "(adata_n_obs a \<noteq> snd (lazy_limits sh) - fst (lazy_limits sh) \<longrightarrow>
            adata read_h5ad_file sh c = (Inl ShardSizeMismatchError, c, [Read (filename sh)])) \<and>
         (adata_n_obs a = snd (lazy_limits sh) - fst (lazy_limits sh) \<and>
            \<not> conforms (lazy_schema sh) a \<longrightarrow>
            adata read_h5ad_file sh c = (Inl SchemaMismatchError, c, [Read (filename sh)])) \<and>
         (adata_n_obs a = snd (lazy_limits sh) - fst (lazy_limits sh) \<and>
            conforms (lazy_schema sh) a \<longrightarrow>
            fst (adata read_h5ad_file sh c) = Inr a \<and>
            fst (snd (adata read_h5ad_file sh c)) = snd (LRU_setitem c (filename sh) a) \<and>
            take 2 (snd (snd (adata read_h5ad_file sh c))) =
              [Read (filename sh), Insert (filename sh)] \<and>
            (max_size c \<noteq> Some 0 \<longrightarrow>
               resident (fst (snd (adata read_h5ad_file sh c))) (filename sh))) \<and>
         (Insert (filename sh) \<in> set (snd (snd (adata read_h5ad_file sh c))) \<longleftrightarrow>
            adata_n_obs a = snd (lazy_limits sh) - fst (lazy_limits sh) \<and>
            conforms (lazy_schema sh) a)"
proof -
  let ?f = "filename sh"
  have size: "n_obs sh = snd (lazy_limits sh) - fst (lazy_limits sh)"
    by (simp add: n_obs_def)
  consider (short) "n_obs sh \<noteq> adata_n_obs a"
    | (schema) "n_obs sh = adata_n_obs a" "\<not> conforms (lazy_schema sh) a"
    | (ok) "n_obs sh = adata_n_obs a" "conforms (lazy_schema sh) a"
    by blast
  then show ?thesis
  proof cases
    case short
    from adata_size_mismatch [of c sh read_h5ad_file a] assms short size show ?thesis by simp
  next
    case schema
    from adata_schema_mismatch [of c sh read_h5ad_file a] assms schema size show ?thesis by simp
  next
    case ok
    from adata_load [of c sh read_h5ad_file a] assms ok size resident_setitem [of c ?f a]
    show ?thesis by simp
  qed
qed

theorem adata_miss_validates_witness:
  "adata demo_reader (demo_shard ''short'' 0) (LRU_init (Some 2)) =
     (Inl ShardSizeMismatchError, LRU_init (Some 2), [Read ''short'']) \<and>
   adata demo_reader (demo_shard ''bad'' 0) (LRU_init (Some 2)) =
     (Inl SchemaMismatchError, LRU_init (Some 2), [Read ''bad'']) \<and>
   fst (adata demo_reader (demo_shard ''s1'' 10) (LRU_init (Some 2))) = Inr (demo_adata 10) \<and>
   resident (fst (snd (adata demo_reader (demo_shard ''s1'' 10) (LRU_init (Some 2))))) ''s1''"
proof -
  from adata_miss_validates [of "LRU_init (Some 2)" "demo_shard ''short'' 0" demo_reader "demo_adata 7"]
  have 1: "adata demo_reader (demo_shard ''short'' 0) (LRU_init (Some 2)) =
     (Inl ShardSizeMismatchError, LRU_init (Some 2), [Read ''short''])"
    by simp
  from adata_miss_validates [of "LRU_init (Some 2)" "demo_shard ''bad'' 0" demo_reader bad_adata]
  have 2: "adata demo_reader (demo_shard ''bad'' 0) (LRU_init (Some 2)) =
     (Inl SchemaMismatchError, LRU_init (Some 2), [Read ''bad''])"
    by simp
  note w = adata_miss_validates [of "LRU_init (Some 2)" "demo_shard ''s1'' 10" demo_reader
      "demo_adata 10", simplified]
  from w have 3:
    "fst (adata demo_reader (demo_shard ''s1'' 10) (LRU_init (Some 2))) = Inr (demo_adata 10) \<and>
     resident (fst (snd (adata demo_reader (demo_shard ''s1'' 10) (LRU_init (Some 2))))) ''s1''"
    by blast
  from 1 2 3 show ?thesis by blast
qed

section \<open>Properties of the constructor\<close>


lemma running_sums_lazy_adatas:
  "length ls \<le> length fs \<Longrightarrow>
   running_sums acc (map n_obs
     (map (\<lambda>(start, end, f). \<lparr>filename = f, lazy_limits = (start, end), lazy_schema = s\<rparr>)
       (zip (acc # ls) (zip ls fs)))) = ls"
proof (induction ls arbitrary: acc fs)
  case Nil
  then show ?case by simp
next
  case (Cons l ls)
  then obtain f fs' where fs: "fs = f # fs'" by (cases fs) auto
  with Cons.prems have "length ls \<le> length fs'" by simp
  from Cons.IH [OF this, of l] show ?case by (simp add: fs n_obs_def)
qed

lemma AnnCollection_limits_lazy_adatas:
  "length ls = length fs \<Longrightarrow> AnnCollection_limits (lazy_adatas s ls fs) = ls"
  unfolding AnnCollection_limits_def lazy_adatas_def
  by (rule running_sums_lazy_adatas) simp

text \<open>What a successful construction returns.\<close>

lemma init_Inr:
  assumes "init be r fa la ss lss m strict ka = (Inr coll, evs)"
  shows "\<exists>a0 s ev c.
           expand_filenames be fa \<noteq> [] \<and>
           r (hd (expand_filenames be fa)) = Some a0 \<and>
           AnnDataSchema_init a0 = Inr s \<and>
           LRU_setitem (LRU_init m) (hd (expand_filenames be fa)) a0 = (ev, c) \<and>
           length (compute_limits (length (expand_filenames be fa)) la ss lss) =
             length (expand_filenames be fa) \<and>
           evs = [Read (hd (expand_filenames be fa)), Insert (hd (expand_filenames be fa))] @
                 (case ev of None \<Rightarrow> [] | Some k \<Rightarrow> [Evict k]) \<and>
           coll = \<lparr>filenames = expand_filenames be fa,
                   limits = compute_limits (length (expand_filenames be fa)) la ss lss,
                   max_cache_size = m,
                   cache_size_strictly_enforced = strict,
                   schema = s,
                   keys = (case ka of None \<Rightarrow> expand_filenames be fa | Some ks \<Rightarrow> ks),
                   cache = c,
                   adatas = lazy_adatas s
                     (compute_limits (length (expand_filenames be fa)) la ss lss)
                     (expand_filenames be fa)\<rparr>"
  using assms
  by (auto simp: init_def Let_def AnnCollection_limits_lazy_adatas
      split: if_splits option.splits prod.splits sum.splits)


lemma LRU_setitem_empty:
  "m \<noteq> Some 0 \<Longrightarrow>
   LRU_setitem (LRU_init m) k v = (None, \<lparr>max_size = m, entries = [(k, v)]\<rparr>)"
  by (cases m) (simp_all add: LRU_setitem_def LRU_init_def)

lemma sized_limits_from:
  "map (\<lambda>i. start + 10 * (int i + 1)) [0..<length fs] = demo_limits start fs"
proof (induction fs arbitrary: start)
  case Nil
  then show ?case by simp
next
  case (Cons f fs)
  have "[0..<length (f # fs)] = 0 # map Suc [0..<length fs]"
    by (simp add: upt_conv_Cons map_Suc_upt del: upt_Suc)
  then have "map (\<lambda>i. start + 10 * (int i + 1)) [0..<length (f # fs)] =
      (start + 10) # map (\<lambda>i. (start + 10) + 10 * (int i + 1)) [0..<length fs]"
    by (simp add: algebra_simps del: upt_Suc)
  with Cons.IH [of "start + 10"] show ?case by simp
qed

lemma sized_limits:
  "compute_limits (length fs) None (Some 10) None = demo_limits 0 fs"
  using sized_limits_from [of 0 fs] by (simp add: compute_limits_def)

lemma zip_limits_files:
  "map (\<lambda>(start, end, f). \<lparr>filename = f, lazy_limits = (start, end), lazy_schema = demo_schema\<rparr>)
     (zip (start # demo_limits start fs) (zip (demo_limits start fs) fs)) =
   demo_shards start fs"
  by (induction fs arbitrary: start) (simp_all add: demo_shard_def)

lemma demo_lazy_adatas:
  "lazy_adatas demo_schema (demo_limits 0 fs) fs = demo_shards 0 fs"
  unfolding lazy_adatas_def by (rule zip_limits_files)

lemma length_demo_limits [simp]: "length (demo_limits start fs) = length fs"
  by (induction fs arbitrary: start) simp_all

text \<open>
  The constructor on shards of ten rows: it succeeds when the first file conforms,
  whatever the other files hold.
\<close>

lemma demo_init:
  assumes "m \<noteq> Some 0" and "fs \<noteq> []" and "r (hd fs) = Some (demo_adata n)"
  shows "init demo_braceexpand r (Names fs) None (Some 10) None m strict None =
     (Inr (demo_collection fs m strict \<lparr>max_size = m, entries = [(hd fs, demo_adata n)]\<rparr>),
      [Read (hd fs), Insert (hd fs)])"
proof -
  have fs: "expand_filenames demo_braceexpand (Names fs) = fs"
    by (simp add: expand_filenames_def)
  have "AnnCollection_limits (lazy_adatas demo_schema (demo_limits 0 fs) fs) =
      demo_limits 0 fs"
    by (rule AnnCollection_limits_lazy_adatas) simp
  then have lim: "AnnCollection_limits (demo_shards 0 fs) = demo_limits 0 fs"
    by (simp only: demo_lazy_adatas)
  show ?thesis
    unfolding init_def fs Let_def sized_limits
    using assms
    by (simp add: LRU_setitem_empty demo_schema_init lim demo_lazy_adatas demo_collection_def)
qed

section \<open>Configuration errors\<close>




section \<open>Strict enforcement with the capacity unset\<close>

text \<open>
  C10. When strict enforcement is on and the capacity is unset (the defaults of the
  constructor), every call of \<^verbatim>\<open>materialize\<close> fails, whatever the indices: the guard
  compares the number of indices with \<^verbatim>\<open>None\<close>. The collection is left as it was and no
  shard is fetched. This holds for every collection with these two attributes, and so
  for every collection the constructor returns for these arguments.
\<close>

theorem materialize_unset_capacity_fails:
  "(cache_size_strictly_enforced coll \<and> max_cache_size coll = None \<longrightarrow>
      materialize r coll ia = (Inl TypeError, coll, [])) \<and>
   (init be r0 fa la ss lss None True ka = (Inr coll, evs) \<longrightarrow>
      materialize r coll ia = (Inl TypeError, coll, []))"
proof -
  have g: "cache_size_strictly_enforced coll \<and> max_cache_size coll = None \<Longrightarrow>
      materialize r coll ia = (Inl TypeError, coll, [])"
    by (simp add: materialize_def strict_check_def Let_def)
  have "init be r0 fa la ss lss None True ka = (Inr coll, evs) \<Longrightarrow>
      cache_size_strictly_enforced coll \<and> max_cache_size coll = None"
    by (drule init_Inr) auto
  with g show ?thesis by blast
qed

theorem materialize_unset_capacity_fails_witness:
  "init demo_braceexpand demo_reader (Names demo_files) None (Some 10) None None True None =
     (Inr (demo_collection demo_files None True \<lparr>max_size = None, entries = [(''s0'', demo_adata 10)]\<rparr>),
      [Read ''s0'', Insert ''s0'']) \<and>
   fst (materialize demo_reader
     (demo_collection demo_files None True \<lparr>max_size = None, entries = [(''s0'', demo_adata 10)]\<rparr>)
     (Indices [])) = Inl TypeError \<and>
   fst (materialize demo_reader
     (demo_collection demo_files None True \<lparr>max_size = None, entries = [(''s0'', demo_adata 10)]\<rparr>)
     (Index 0)) = Inl TypeError"
proof -
  let ?c = "demo_collection demo_files None True \<lparr>max_size = None, entries = [(''s0'', demo_adata 10)]\<rparr>"
  have i: "init demo_braceexpand demo_reader (Names demo_files) None (Some 10) None None True None =
     (Inr ?c, [Read ''s0'', Insert ''s0''])"
    using demo_init [of None demo_files demo_reader 10 True] by simp
  from i materialize_unset_capacity_fails
    [of ?c demo_reader "Indices []" demo_braceexpand demo_reader "Names demo_files" None "Some 10"
      None None "[Read ''s0'', Insert ''s0'']"]
  have 1: "materialize demo_reader ?c (Indices []) = (Inl TypeError, ?c, [])" by blast
  from i materialize_unset_capacity_fails
    [of ?c demo_reader "Index 0" demo_braceexpand demo_reader "Names demo_files" None "Some 10"
      None None "[Read ''s0'', Insert ''s0'']"]
  have 2: "materialize demo_reader ?c (Index 0) = (Inl TypeError, ?c, [])" by blast
  from i 1 2 show ?thesis by simp
qed

section \<open>The presence check\<close>

text \<open>
  C7. The presence check \<^verbatim>\<open>LazyAnnData.cached\<close> answers whether the shard's file name is a
  key of the cache and leaves the cache, hence its eviction order, as it was.
\<close>

theorem cached_keeps_eviction_order:
  "snd (cached sh c) = c \<and>
   eviction_order (snd (cached sh c)) = eviction_order c \<and>
   fst (cached sh c) = resident c (filename sh)"
  by (simp add: cached_def LRU_contains_def resident_def eviction_order_def)

theorem cached_keeps_eviction_order_witness:
  "eviction_order (snd (cached (demo_shard ''s1'' 10)
       \<lparr>max_size = Some 2, entries = [(''s0'', demo_adata 10), (''s1'', demo_adata 10)]\<rparr>)) =
     [''s0'', ''s1''] \<and>
   fst (cached (demo_shard ''s1'' 10)
       \<lparr>max_size = Some 2, entries = [(''s0'', demo_adata 10), (''s1'', demo_adata 10)]\<rparr>)"
  using cached_keeps_eviction_order [of "demo_shard ''s1'' 10"
      "\<lparr>max_size = Some 2, entries = [(''s0'', demo_adata 10), (''s1'', demo_adata 10)]\<rparr>"]
  by (simp add: eviction_order_def resident_def)

section \<open>Saving and restoring\<close>

text \<open>
  C8. \<^verbatim>\<open>__getstate__\<close> followed by \<^verbatim>\<open>__setstate__\<close> gives a collection with the same file
  names, boundaries, schema, capacity, strictness flag and keys, an empty cache of the
  same capacity and the shard list rebuilt from the boundaries and file names. The
  saved state does not depend on the cache or on the shard objects. For a collection
  whose shard list is the one its boundaries and file names determine, as for every
  collection the constructor returns, the restored collection is the original one with
  an empty cache.
\<close>

theorem setstate_getstate:
  "filenames (setstate (getstate coll)) = filenames coll \<and>
   limits (setstate (getstate coll)) = limits coll \<and>
   schema (setstate (getstate coll)) = schema coll \<and>
   max_cache_size (setstate (getstate coll)) = max_cache_size coll \<and>
   cache_size_strictly_enforced (setstate (getstate coll)) = cache_size_strictly_enforced coll \<and>
   keys (setstate (getstate coll)) = keys coll \<and>
   cache (setstate (getstate coll)) = LRU_init (max_cache_size coll) \<and>
   eviction_order (cache (setstate (getstate coll))) = [] \<and>
   adatas (setstate (getstate coll)) =
     lazy_adatas (schema coll) (limits coll) (filenames coll) \<and>
   getstate (coll\<lparr>cache := c, adatas := shards\<rparr>) = getstate coll \<and>
   (adatas coll = lazy_adatas (schema coll) (limits coll) (filenames coll) \<longrightarrow>
      setstate (getstate coll) = coll\<lparr>cache := LRU_init (max_cache_size coll)\<rparr>) \<and>
   (init be r fa la ss lss m strict ka = (Inr coll, evs) \<longrightarrow>
      setstate (getstate coll) = coll\<lparr>cache := LRU_init (max_cache_size coll)\<rparr>)"
proof -
  have wf: "init be r fa la ss lss m strict ka = (Inr coll, evs) \<Longrightarrow>
      adatas coll = lazy_adatas (schema coll) (limits coll) (filenames coll)"
    by (drule init_Inr) auto
  have eq: "adatas coll = lazy_adatas (schema coll) (limits coll) (filenames coll) \<Longrightarrow>
      setstate (getstate coll) = coll\<lparr>cache := LRU_init (max_cache_size coll)\<rparr>"
    by (simp add: setstate_def getstate_def)
  have "eviction_order (cache (setstate (getstate coll))) = []"
    by (simp add: setstate_def eviction_order_def)
  with wf eq show ?thesis by (simp add: setstate_def getstate_def)
qed

theorem setstate_getstate_witness:
  "setstate (getstate (demo_collection demo_files (Some 2) True
       \<lparr>max_size = Some 2, entries = [(''s0'', demo_adata 10)]\<rparr>)) =
     demo_collection demo_files (Some 2) True (LRU_init (Some 2))"
proof -
  let ?c = "demo_collection demo_files (Some 2) True \<lparr>max_size = Some 2, entries = [(''s0'', demo_adata 10)]\<rparr>"
  have i: "init demo_braceexpand demo_reader (Names demo_files) None (Some 10) None (Some 2) True None =
     (Inr ?c, [Read ''s0'', Insert ''s0''])"
    using demo_init [of "Some 2" demo_files demo_reader 10 True] by simp
  from i setstate_getstate [of ?c undefined undefined demo_braceexpand demo_reader "Names demo_files" None
      "Some 10" None "Some 2" True None "[Read ''s0'', Insert ''s0'']"]
  have "setstate (getstate ?c) = ?c\<lparr>cache := LRU_init (max_cache_size ?c)\<rparr>" by blast
  then show ?thesis by (simp add: demo_collection_def)
qed

section \<open>Attribute access\<close>






section \<open>Construction reads the first file only\<close>

lemma lazy_adatas_schema:
  "sh \<in> set (lazy_adatas s ls fs) \<Longrightarrow> lazy_schema sh = s"
  by (auto simp: lazy_adatas_def)

lemma init_reader_cong:
  "r' (hd (expand_filenames be fa)) = r (hd (expand_filenames be fa)) \<Longrightarrow>
   init be r' fa la ss lss m strict ka = init be r fa la ss lss m strict ka"
  by (simp only: init_def Let_def)

text \<open>
  C5. A successful construction (with a capacity other than zero) calls the reader once,
  on the first file, infers the schema from that content and inserts it into the cache:
  afterwards the cache holds exactly the first file. Its outcome does not depend on what
  the reader would return for any other file. A shard other than the first whose file
  has the declared row count but does not conform to the schema fails with
  \<open>SchemaMismatchError\<close> when its content is first requested, leaving the cache as it was.
\<close>

theorem init_reads_first_file_only:
  assumes "init be r fa la ss lss m strict ka = (Inr coll, evs)" and "m \<noteq> Some 0"
  shows "filenames coll = expand_filenames be fa \<and>
         evs = [Read (hd (filenames coll)), Insert (hd (filenames coll))] \<and>
         (\<exists>a0. r (hd (filenames coll)) = Some a0 \<and>
               AnnDataSchema_init a0 = Inr (schema coll) \<and>
               entries (cache coll) = [(hd (filenames coll), a0)]) \<and>
         eviction_order (cache coll) = [hd (filenames coll)] \<and>
         (\<forall>r'. r' (hd (filenames coll)) = r (hd (filenames coll)) \<longrightarrow>
               init be r' fa la ss lss m strict ka = (Inr coll, evs)) \<and>
         (\<forall>sh \<in> set (adatas coll). \<forall>r2 a.
            filename sh \<noteq> hd (filenames coll) \<and> r2 (filename sh) = Some a \<and>
            adata_n_obs a = n_obs sh \<and> \<not> conforms (schema coll) a \<longrightarrow>
            adata r2 sh (cache coll) =
              (Inl SchemaMismatchError, cache coll, [Read (filename sh)]))"
proof -
  let ?fs = "expand_filenames be fa"
  from init_Inr [OF assms(1)] obtain a0 s ev c where
    ne: "?fs \<noteq> []" and r0: "r (hd ?fs) = Some a0" and s: "AnnDataSchema_init a0 = Inr s"
    and set: "LRU_setitem (LRU_init m) (hd ?fs) a0 = (ev, c)"
    and evs: "evs = [Read (hd ?fs), Insert (hd ?fs)] @ (case ev of None \<Rightarrow> [] | Some k \<Rightarrow> [Evict k])"
    and coll: "coll = \<lparr>filenames = ?fs,
                   limits = compute_limits (length ?fs) la ss lss,
                   max_cache_size = m,
                   cache_size_strictly_enforced = strict,
                   schema = s,
                   keys = (case ka of None \<Rightarrow> ?fs | Some ks \<Rightarrow> ks),
                   cache = c,
                   adatas = lazy_adatas s (compute_limits (length ?fs) la ss lss) ?fs\<rparr>"
    by blast
  from set LRU_setitem_empty [OF assms(2), of "hd ?fs" a0]
  have ev: "ev = None" and c: "c = \<lparr>max_size = m, entries = [(hd ?fs, a0)]\<rparr>" by simp_all
  have 1: "filenames coll = ?fs" by (simp add: coll)
  have 2: "evs = [Read (hd (filenames coll)), Insert (hd (filenames coll))]"
    by (simp add: evs ev 1)
  have 3: "\<exists>a0. r (hd (filenames coll)) = Some a0 \<and>
               AnnDataSchema_init a0 = Inr (schema coll) \<and>
               entries (cache coll) = [(hd (filenames coll), a0)]"
    using r0 s by (simp add: coll c)
  have 4: "eviction_order (cache coll) = [hd (filenames coll)]"
    by (simp add: coll c eviction_order_def)
  have 5: "\<forall>r'. r' (hd (filenames coll)) = r (hd (filenames coll)) \<longrightarrow>
               init be r' fa la ss lss m strict ka = (Inr coll, evs)"
    using init_reader_cong [of _ be fa r la ss lss m strict ka] assms(1) by (simp add: 1)
  have 6: "\<forall>sh \<in> set (adatas coll). \<forall>r2 a.
            filename sh \<noteq> hd (filenames coll) \<and> r2 (filename sh) = Some a \<and>
            adata_n_obs a = n_obs sh \<and> \<not> conforms (schema coll) a \<longrightarrow>
            adata r2 sh (cache coll) =
              (Inl SchemaMismatchError, cache coll, [Read (filename sh)])"
  proof (intro ballI allI impI)
    fix sh r2 a
    assume sh: "sh \<in> set (adatas coll)"
      and h: "filename sh \<noteq> hd (filenames coll) \<and> r2 (filename sh) = Some a \<and>
            adata_n_obs a = n_obs sh \<and> \<not> conforms (schema coll) a"
    from sh have sch: "lazy_schema sh = schema coll"
      by (auto simp: coll dest: lazy_adatas_schema)
    from h 4 have nr: "\<not> resident (cache coll) (filename sh)"
      by (simp add: resident_def)
    from h sch show "adata r2 sh (cache coll) =
              (Inl SchemaMismatchError, cache coll, [Read (filename sh)])"
      using adata_schema_mismatch [of "cache coll" sh r2 a] nr by simp
  qed
  from 1 2 3 4 5 6 show ?thesis by blast
qed

theorem init_reads_first_file_only_witness:
  "init demo_braceexpand demo_reader (Names [''s0'', ''bad'', ''s2'']) None (Some 10) None
       (Some 2) True None =
     (Inr (demo_collection [''s0'', ''bad'', ''s2''] (Some 2) True
            \<lparr>max_size = Some 2, entries = [(''s0'', demo_adata 10)]\<rparr>),
      [Read ''s0'', Insert ''s0'']) \<and>
   adata demo_reader (demo_shard ''bad'' 10) \<lparr>max_size = Some 2, entries = [(''s0'', demo_adata 10)]\<rparr> =
     (Inl SchemaMismatchError, \<lparr>max_size = Some 2, entries = [(''s0'', demo_adata 10)]\<rparr>,
      [Read ''bad''])"
proof -
  let ?fs = "[''s0'', ''bad'', ''s2'']"
  let ?c = "\<lparr>max_size = Some 2, entries = [(''s0'', demo_adata 10)]\<rparr> :: shard_cache"
  have i: "init demo_braceexpand demo_reader (Names ?fs) None (Some 10) None (Some 2) True None =
     (Inr (demo_collection ?fs (Some 2) True ?c), [Read ''s0'', Insert ''s0''])"
    using demo_init [of "Some 2" ?fs demo_reader 10 True] by simp
  have m: "Some (2::nat) \<noteq> Some 0" by simp
  have sh: "demo_shard ''bad'' 10 \<in> set (adatas (demo_collection ?fs (Some 2) True ?c))"
    by (simp add: demo_collection_def)
  from init_reads_first_file_only [OF i m] sh
  have "\<forall>r2 a. filename (demo_shard ''bad'' 10) \<noteq> hd (filenames (demo_collection ?fs (Some 2) True ?c)) \<and>
      r2 (filename (demo_shard ''bad'' 10)) = Some a \<and>
      adata_n_obs a = n_obs (demo_shard ''bad'' 10) \<and>
      \<not> conforms (schema (demo_collection ?fs (Some 2) True ?c)) a \<longrightarrow>
      adata r2 (demo_shard ''bad'' 10) (cache (demo_collection ?fs (Some 2) True ?c)) =
        (Inl SchemaMismatchError, cache (demo_collection ?fs (Some 2) True ?c),
         [Read (filename (demo_shard ''bad'' 10))])"
    by blast
  from this [rule_format, of demo_reader bad_adata]
  have "adata demo_reader (demo_shard ''bad'' 10) ?c = (Inl SchemaMismatchError, ?c, [Read ''bad''])"
    by (simp add: demo_collection_def n_obs_def)
  with i show ?thesis by simp
qed

section \<open>The capacity bound\<close>

lemma length_getitem:
  "length (entries (snd (LRU_getitem c k))) \<le> length (entries c)"
proof (cases "map_of (entries c) k")
  case None
  then show ?thesis by (simp add: LRU_getitem_def)
next
  case (Some v)
  then have "(k, v) \<in> set (entries c)" by (rule map_of_SomeD)
  then have "length (filter (\<lambda>e. fst e \<noteq> k) (entries c)) < length (entries c)"
    by (rule length_filter_less) simp
  with Some show ?thesis by (simp add: LRU_getitem_def)
qed

lemma bounded_getitem:
  "max_size c = Some m \<Longrightarrow> length (entries c) \<le> m \<Longrightarrow>
   max_size (snd (LRU_getitem c k)) = Some m \<and> length (entries (snd (LRU_getitem c k))) \<le> m"
  using length_getitem [of c k] by simp

lemma bounded_setitem:
  "max_size c = Some m \<Longrightarrow> length (entries c) \<le> m \<Longrightarrow>
   max_size (snd (LRU_setitem c k v)) = Some m \<and> length (entries (snd (LRU_setitem c k v))) \<le> m"
  using within_capacity_setitem [of c k v] by (simp add: within_capacity_def)

lemma adata_cache_cases:
  "fst (snd (adata r sh c)) = c \<or>
   fst (snd (adata r sh c)) = snd (LRU_getitem c (filename sh)) \<or>
   (\<exists>a. fst (snd (adata r sh c)) = snd (LRU_setitem c (filename sh) a))"
proof (cases "map_of (entries c) (filename sh)")
  case None
  then have nr: "\<not> resident c (filename sh)" by (simp add: resident_map_of)
  show ?thesis
  proof (cases "r (filename sh)")
    case None
    with nr show ?thesis by (simp add: adata_unreadable)
  next
    case (Some a)
    consider "n_obs sh \<noteq> adata_n_obs a"
      | "n_obs sh = adata_n_obs a" "\<not> conforms (lazy_schema sh) a"
      | "n_obs sh = adata_n_obs a" "conforms (lazy_schema sh) a" by blast
    then show ?thesis
    proof cases
      case 1
      with nr Some show ?thesis by (simp add: adata_size_mismatch)
    next
      case 2
      with nr Some show ?thesis by (simp add: adata_schema_mismatch)
    next
      case 3
      with nr Some have "fst (snd (adata r sh c)) = snd (LRU_setitem c (filename sh) a)"
        by (simp add: adata_load)
      then show ?thesis by blast
    qed
  qed
next
  case (Some a)
  then show ?thesis by (simp add: adata_hit LRU_getitem_hit)
qed

lemma bounded_adata:
  assumes "max_size c = Some m" and "length (entries c) \<le> m"
  shows "max_size (fst (snd (adata r sh c))) = Some m \<and>
         length (entries (fst (snd (adata r sh c)))) \<le> m"
  using adata_cache_cases [of r sh c] bounded_getitem [OF assms] bounded_setitem [OF assms] assms
  by auto

text \<open>Whatever \<^verbatim>\<open>adata\<close> preserves, a pass of \<^verbatim>\<open>materialize\<close> preserves.\<close>

lemma fetch_pass_preserves:
  assumes step: "\<And>sh c. P c \<Longrightarrow> P (fst (snd (adata r sh c)))"
  shows "P c \<Longrightarrow> P (fst (snd (fetch_pass want r shards eis out c)))"
proof (induction eis arbitrary: out c)
  case Nil
  then show ?case by simp
next
  case (Cons ei eis)
  obtain i idx where ei: "ei = (i, idx)" by (cases ei)
  show ?case
  proof (cases "list_getitem shards idx")
    case (Inl e)
    with Cons.prems show ?thesis by (simp add: ei)
  next
    case (Inr sh)
    show ?thesis
    proof (cases "fst (cached sh c) = want")
      case False
      with Cons.IH [OF Cons.prems] Inr show ?thesis
        by (simp add: ei cached_def LRU_contains_def)
    next
      case True
      obtain x c2 evs where a: "adata r sh c = (x, c2, evs)" by (cases "adata r sh c") auto
      with step [OF Cons.prems, of sh] have p2: "P c2" by simp
      show ?thesis
      proof (cases x)
        case (Inl e)
        with True Inr a p2 show ?thesis by (simp add: ei cached_def LRU_contains_def)
      next
        case (Inr y)
        obtain x3 c3 evs3 where
          f: "fetch_pass want r shards eis (out[i := Some y]) c2 = (x3, c3, evs3)"
          by (cases "fetch_pass want r shards eis (out[i := Some y]) c2") auto
        with Cons.IH [OF p2, of "out[i := Some y]"] have "P c3" by simp
        with True \<open>list_getitem shards idx = Inr sh\<close> a Inr f
        show ?thesis
          by (simp add: ei cached_def LRU_contains_def)
      qed
    qed
  qed
qed

lemma materialize_frame:
  "fst (snd (materialize r coll ia)) = coll\<lparr>cache := cache (fst (snd (materialize r coll ia)))\<rparr>"
  by (simp add: materialize_def Let_def split: option.splits prod.splits sum.splits)

lemma materialize_preserves:
  assumes step: "\<And>sh c. P c \<Longrightarrow> P (fst (snd (adata r sh c)))" and "P (cache coll)"
  shows "P (cache (fst (snd (materialize r coll ia))))"
proof (cases "strict_check coll (length (indices_of ia))")
  case (Some e)
  with assms(2) show ?thesis by (simp add: materialize_def)
next
  case None
  let ?eis = "enumerate 0 (indices_of ia)"
  let ?out = "replicate (length (indices_of ia)) None"
  obtain x c1 evs1 where p1: "fetch_pass True r (adatas coll) ?eis ?out (cache coll) = (x, c1, evs1)"
    by (cases "fetch_pass True r (adatas coll) ?eis ?out (cache coll)") auto
  from fetch_pass_preserves [of P r "cache coll" True "adatas coll" ?eis ?out] step assms(2) p1
  have c1: "P c1" by simp
  show ?thesis
  proof (cases x)
    case (Inl e)
    with None p1 c1 show ?thesis by (simp add: materialize_def)
  next
    case (Inr out1)
    obtain x2 c2 evs2 where
      p2: "fetch_pass False r (adatas coll) ?eis out1 c1 = (x2, c2, evs2)"
      by (cases "fetch_pass False r (adatas coll) ?eis out1 c1") auto
    from fetch_pass_preserves [of P r c1 False "adatas coll" ?eis out1] step c1 p2
    have "P c2" by simp
    with None p1 Inr p2 show ?thesis by (simp add: materialize_def)
  qed
qed

lemma adata_seq_preserves:
  assumes step: "\<And>sh c. P c \<Longrightarrow> P (fst (snd (adata r sh c)))"
  shows "P c \<Longrightarrow> P (adata_seq r shs c)"
  by (induction shs arbitrary: c) (simp_all add: step)

lemma materialize_seq_preserves:
  assumes step: "\<And>sh c. P c \<Longrightarrow> P (fst (snd (adata r sh c)))"
  shows "P (cache coll) \<Longrightarrow> P (cache (materialize_seq r coll ias))"
proof (induction ias arbitrary: coll)
  case Nil
  then show ?case by simp
next
  case (Cons ia ias)
  from materialize_preserves [of P r coll ia] step Cons.prems
  have "P (cache (fst (snd (materialize r coll ia))))" by simp
  from Cons.IH [OF this] show ?case by simp
qed

lemma setitem_full:
  assumes "max_size c = Some m" and "length (entries c) = m" and "0 < m" and "\<not> resident c k"
  shows "LRU_setitem c k v =
           (Some (hd (eviction_order c)), c\<lparr>entries := tl (entries c) @ [(k, v)]\<rparr>)"
proof -
  from assms(4) have f: "filter (\<lambda>e. fst e \<noteq> k) (entries c) = entries c"
    by (simp add: filter_key_absent resident_def eviction_order_def)
  from assms(2,3) have ne: "entries c \<noteq> []" by auto
  then show ?thesis using assms(1,2)
    by (simp add: LRU_setitem_def f eviction_order_def hd_map)
qed

lemma setitem_room:
  assumes "max_size c = Some m" and "length (entries c) < m" and "\<not> resident c k"
  shows "LRU_setitem c k v = (None, c\<lparr>entries := entries c @ [(k, v)]\<rparr>)"
proof -
  from assms(3) have f: "filter (\<lambda>e. fst e \<noteq> k) (entries c) = entries c"
    by (simp add: filter_key_absent resident_def eviction_order_def)
  show ?thesis using assms(1,2) by (simp add: LRU_setitem_def f)
qed

text \<open>
  C2. For a collection constructed with capacity \<open>m\<close>, after any sequence of calls of
  \<^verbatim>\<open>materialize\<close>, and after any sequence of reads of \<^verbatim>\<open>LazyAnnData.adata\<close>, whether they
  succeed or fail, the cache holds at most \<open>m\<close> entries and still has capacity \<open>m\<close>. The
  same holds from any cache within its capacity. Inserting an absent key into a full
  cache evicts exactly the head of the eviction order, the least recently touched entry,
  and keeps all the others; inserting where there is room evicts nothing. A lookup that
  hits moves its key to the recent end of the eviction order and keeps the order of the
  others, so that the head is the entry touched least recently.
\<close>

theorem cache_never_exceeds_capacity:
  "(init be r0 fa la ss lss (Some m) strict ka = (Inr coll, evs) \<longrightarrow>
      length (entries (cache (materialize_seq r coll ias))) \<le> m \<and>
      max_size (cache (materialize_seq r coll ias)) = Some m \<and>
      length (entries (adata_seq r shs (cache coll))) \<le> m) \<and>
   (max_size c = Some m \<and> length (entries c) \<le> m \<longrightarrow>
      length (entries (adata_seq r shs c)) \<le> m \<and> max_size (adata_seq r shs c) = Some m) \<and>
   (max_size c = Some m \<and> length (entries c) = m \<and> 0 < m \<and> \<not> resident c k \<longrightarrow>
      LRU_setitem c k v =
        (Some (hd (eviction_order c)), c\<lparr>entries := tl (entries c) @ [(k, v)]\<rparr>)) \<and>
   (max_size c = Some m \<and> length (entries c) < m \<and> \<not> resident c k \<longrightarrow>
      LRU_setitem c k v = (None, c\<lparr>entries := entries c @ [(k, v)]\<rparr>)) \<and>
   (resident c k \<longrightarrow>
      eviction_order (snd (LRU_getitem c k)) = filter (\<lambda>x. x \<noteq> k) (eviction_order c) @ [k])"
proof -
  let ?P = "\<lambda>c :: shard_cache. max_size c = Some m \<and> length (entries c) \<le> m"
  have step: "\<And>sh c. ?P c \<Longrightarrow> ?P (fst (snd (adata r sh c)))"
    using bounded_adata by blast
  have start: "?P (cache coll)" if "init be r0 fa la ss lss (Some m) strict ka = (Inr coll, evs)"
  proof -
    from init_Inr [OF that] obtain a0 ev c0 where
      "LRU_setitem (LRU_init (Some m)) (hd (expand_filenames be fa)) a0 = (ev, c0)"
      and "cache coll = c0" by auto
    with bounded_setitem [of "LRU_init (Some m)" m "hd (expand_filenames be fa)" a0]
    show ?thesis by simp
  qed
  have 1: "init be r0 fa la ss lss (Some m) strict ka = (Inr coll, evs) \<longrightarrow>
      length (entries (cache (materialize_seq r coll ias))) \<le> m \<and>
      max_size (cache (materialize_seq r coll ias)) = Some m \<and>
      length (entries (adata_seq r shs (cache coll))) \<le> m"
    using start materialize_seq_preserves [of ?P r coll ias] adata_seq_preserves [of ?P r "cache coll" shs]
      step by blast
  have 2: "max_size c = Some m \<and> length (entries c) \<le> m \<longrightarrow>
      length (entries (adata_seq r shs c)) \<le> m \<and> max_size (adata_seq r shs c) = Some m"
    using adata_seq_preserves [of ?P r c shs] step by blast
  have 3: "resident c k \<longrightarrow>
      eviction_order (snd (LRU_getitem c k)) = filter (\<lambda>x. x \<noteq> k) (eviction_order c) @ [k]"
    by (auto simp: resident_map_of LRU_getitem_hit eviction_order_def filter_map comp_def)
  from 1 2 3 setitem_full [of c m k v] setitem_room [of c m k v] show ?thesis by blast
qed

theorem cache_never_exceeds_capacity_witness:
  "length (entries (cache (materialize_seq demo_reader
      (demo_collection demo_files (Some 2) False
         \<lparr>max_size = Some 2, entries = [(''s0'', demo_adata 10)]\<rparr>)
      [Indices [1, 2, 3], Index 7, Indices [4, 0]]))) \<le> 2 \<and>
   LRU_setitem \<lparr>max_size = Some 2, entries = [(''s0'', demo_adata 10), (''s1'', demo_adata 10)]\<rparr>
       ''s2'' (demo_adata 10) =
     (Some ''s0'',
      \<lparr>max_size = Some 2, entries = [(''s1'', demo_adata 10), (''s2'', demo_adata 10)]\<rparr>)"
proof -
  let ?first = "\<lparr>max_size = Some 2, entries = [(''s0'', demo_adata 10)]\<rparr> :: shard_cache"
  let ?full = "\<lparr>max_size = Some 2, entries = [(''s0'', demo_adata 10), (''s1'', demo_adata 10)]\<rparr>
              :: shard_cache"
  have i: "init demo_braceexpand demo_reader (Names demo_files) None (Some 10) None (Some 2) False None =
     (Inr (demo_collection demo_files (Some 2) False ?first), [Read ''s0'', Insert ''s0''])"
    using demo_init [of "Some 2" demo_files demo_reader 10 False] by simp
  have nr: "\<not> resident ?full ''s2''" by (simp add: resident_def eviction_order_def)
  note t = cache_never_exceeds_capacity [where be = demo_braceexpand and ?r0.0 = demo_reader
      and fa = "Names demo_files" and la = None and ss = "Some 10" and lss = None and m = 2
      and strict = False and ka = None
      and coll = "demo_collection demo_files (Some 2) False ?first"
      and evs = "[Read ''s0'', Insert ''s0'']" and r = demo_reader
      and ias = "[Indices [1, 2, 3], Index 7, Indices [4, 0]]"
      and c = ?full and k = "''s2''" and v = "demo_adata 10"]
  from t i have 1: "length (entries (cache (materialize_seq demo_reader
      (demo_collection demo_files (Some 2) False ?first)
      [Indices [1, 2, 3], Index 7, Indices [4, 0]]))) \<le> 2" by blast
  from t nr have 2: "LRU_setitem ?full ''s2'' (demo_adata 10) =
     (Some ''s0'', \<lparr>max_size = Some 2, entries = [(''s1'', demo_adata 10), (''s2'', demo_adata 10)]\<rparr>)"
    by (simp add: eviction_order_def)
  from 1 2 show ?thesis by blast
qed

section \<open>The strictness guard\<close>

lemma adata_errors:
  "fst (adata r sh c) = Inl e \<Longrightarrow>
   e = StorageUnavailableError \<or> e = ShardSizeMismatchError \<or> e = SchemaMismatchError"
  by (auto simp: adata_def validate_anndata_def LRU_getitem_def
      split: option.splits prod.splits sum.splits if_splits)

lemma list_getitem_error: "list_getitem xs i = Inl e \<Longrightarrow> e = IndexError"
  by (simp add: list_getitem_def split: if_splits)

lemma fetch_pass_errors:
  "fst (fetch_pass want r shards eis out c) = Inl e \<Longrightarrow>
   e = IndexError \<or> e = StorageUnavailableError \<or> e = ShardSizeMismatchError \<or>
   e = SchemaMismatchError"
proof (induction eis arbitrary: out c)
  case Nil
  then show ?case by simp
next
  case (Cons ei eis)
  obtain i idx where ei: "ei = (i, idx)" by (cases ei)
  show ?case
  proof (cases "list_getitem shards idx")
    case (Inl e')
    with Cons.prems have "e = e'" by (simp add: ei)
    with Inl show ?thesis by (auto dest: list_getitem_error)
  next
    case (Inr sh)
    show ?thesis
    proof (cases "fst (cached sh c) = want")
      case False
      with Cons.prems Inr have "fst (fetch_pass want r shards eis out c) = Inl e"
        by (simp add: ei cached_def LRU_contains_def)
      then show ?thesis by (rule Cons.IH)
    next
      case True
      obtain x c2 evs where a: "adata r sh c = (x, c2, evs)" by (cases "adata r sh c") auto
      show ?thesis
      proof (cases x)
        case (Inl e')
        with True Inr a Cons.prems have "e = e'" by (simp add: ei cached_def LRU_contains_def)
        with a Inl adata_errors [of r sh c e'] show ?thesis by simp
      next
        case (Inr y)
        obtain x3 c3 evs3 where
          f: "fetch_pass want r shards eis (out[i := Some y]) c2 = (x3, c3, evs3)"
          by (cases "fetch_pass want r shards eis (out[i := Some y]) c2") auto
        with True \<open>list_getitem shards idx = Inr sh\<close> a Inr Cons.prems
        have "fst (fetch_pass want r shards eis (out[i := Some y]) c2) = Inl e"
          by (simp add: ei cached_def LRU_contains_def)
        then show ?thesis by (rule Cons.IH)
      qed
    qed
  qed
qed

lemma materialize_capacity_error:
  "fst (materialize r coll ia) = Inl CacheCapacityError \<longleftrightarrow>
   strict_check coll (length (indices_of ia)) = Some CacheCapacityError"
proof (cases "strict_check coll (length (indices_of ia))")
  case (Some e)
  then show ?thesis by (simp add: materialize_def)
next
  case None
  let ?eis = "enumerate 0 (indices_of ia)"
  let ?out = "replicate (length (indices_of ia)) None"
  obtain x c1 evs1 where p1: "fetch_pass True r (adatas coll) ?eis ?out (cache coll) = (x, c1, evs1)"
    by (cases "fetch_pass True r (adatas coll) ?eis ?out (cache coll)") auto
  show ?thesis
  proof (cases x)
    case (Inl e)
    with p1 fetch_pass_errors [of True r "adatas coll" ?eis ?out "cache coll" e]
    have "e \<noteq> CacheCapacityError" by auto
    with None p1 Inl show ?thesis by (simp add: materialize_def)
  next
    case (Inr out1)
    obtain x2 c2 evs2 where
      p2: "fetch_pass False r (adatas coll) ?eis out1 c1 = (x2, c2, evs2)"
      by (cases "fetch_pass False r (adatas coll) ?eis out1 c1") auto
    with fetch_pass_errors [of False r "adatas coll" ?eis out1 c1 CacheCapacityError]
    have "x2 \<noteq> Inl CacheCapacityError" by auto
    with None p1 Inr p2 show ?thesis by (simp add: materialize_def)
  qed
qed

lemma demo_materialize_two:
  "materialize demo_reader
     (demo_collection demo_files (Some 2) True
        \<lparr>max_size = Some 2, entries = [(''s0'', demo_adata 10)]\<rparr>) (Indices [0, 1]) =
   (Inr [Some (demo_adata 10), Some (demo_adata 10)],
    demo_collection demo_files (Some 2) True
      \<lparr>max_size = Some 2, entries = [(''s0'', demo_adata 10), (''s1'', demo_adata 10)]\<rparr>,
    [Hit ''s0'', Read ''s1'', Insert ''s1''])"
  by code_simp

text \<open>
  C4. With strict enforcement on and capacity \<open>m\<close>, \<^verbatim>\<open>materialize\<close> fails with
  \<open>CacheCapacityError\<close> exactly when more than \<open>m\<close> indices are requested, and then it
  touches nothing. In the scenario of five shards of ten rows with capacity 2, as the
  constructor leaves it, \<^verbatim>\<open>materialize([0,1,2])\<close> fails with that error, and
  \<^verbatim>\<open>materialize([0,1])\<close> returns both contents and leaves exactly the files of shards 0
  and 1 in the cache, shard 0 being the next to be evicted.
\<close>

theorem materialize_strict_capacity:
  "(cache_size_strictly_enforced coll \<and> max_cache_size coll = Some m \<longrightarrow>
      (fst (materialize r coll ia) = Inl CacheCapacityError \<longleftrightarrow> m < length (indices_of ia)) \<and>
      (m < length (indices_of ia) \<longrightarrow> materialize r coll ia = (Inl CacheCapacityError, coll, []))) \<and>
   init demo_braceexpand demo_reader (Names demo_files) None (Some 10) None (Some 2) True None =
     (Inr (demo_collection demo_files (Some 2) True
            \<lparr>max_size = Some 2, entries = [(''s0'', demo_adata 10)]\<rparr>),
      [Read ''s0'', Insert ''s0'']) \<and>
   materialize demo_reader
     (demo_collection demo_files (Some 2) True
        \<lparr>max_size = Some 2, entries = [(''s0'', demo_adata 10)]\<rparr>) (Indices [0, 1, 2]) =
     (Inl CacheCapacityError,
      demo_collection demo_files (Some 2) True
        \<lparr>max_size = Some 2, entries = [(''s0'', demo_adata 10)]\<rparr>, []) \<and>
   fst (materialize demo_reader
     (demo_collection demo_files (Some 2) True
        \<lparr>max_size = Some 2, entries = [(''s0'', demo_adata 10)]\<rparr>) (Indices [0, 1])) =
     Inr [Some (demo_adata 10), Some (demo_adata 10)] \<and>
   eviction_order (cache (fst (snd (materialize demo_reader
     (demo_collection demo_files (Some 2) True
        \<lparr>max_size = Some 2, entries = [(''s0'', demo_adata 10)]\<rparr>) (Indices [0, 1]))))) =
     [''s0'', ''s1'']"
proof -
  let ?d = "demo_collection demo_files (Some 2) True
        \<lparr>max_size = Some 2, entries = [(''s0'', demo_adata 10)]\<rparr>"
  have g: "cache_size_strictly_enforced coll \<and> max_cache_size coll = Some m \<longrightarrow>
      (fst (materialize r coll ia) = Inl CacheCapacityError \<longleftrightarrow> m < length (indices_of ia)) \<and>
      (m < length (indices_of ia) \<longrightarrow> materialize r coll ia = (Inl CacheCapacityError, coll, []))"
  proof (intro impI conjI)
    assume h: "cache_size_strictly_enforced coll \<and> max_cache_size coll = Some m"
    then have sc: "strict_check coll (length (indices_of ia)) =
        (if length (indices_of ia) \<le> m then None else Some CacheCapacityError)"
      by (simp add: strict_check_def)
    show "fst (materialize r coll ia) = Inl CacheCapacityError \<longleftrightarrow> m < length (indices_of ia)"
      unfolding materialize_capacity_error sc by auto
    assume "m < length (indices_of ia)"
    with sc show "materialize r coll ia = (Inl CacheCapacityError, coll, [])"
      by (simp add: materialize_def)
  qed
  have i: "init demo_braceexpand demo_reader (Names demo_files) None (Some 10) None (Some 2) True None =
     (Inr ?d, [Read ''s0'', Insert ''s0''])"
    using demo_init [of "Some 2" demo_files demo_reader 10 True] by simp
  have three: "materialize demo_reader ?d (Indices [0, 1, 2]) = (Inl CacheCapacityError, ?d, [])"
    by (simp add: materialize_def strict_check_def indices_of_def demo_collection_def)
  have order: "eviction_order (cache (fst (snd (materialize demo_reader ?d (Indices [0, 1]))))) =
     [''s0'', ''s1'']"
    unfolding demo_materialize_two by (simp add: demo_collection_def eviction_order_def)
  from g i three order show ?thesis by (simp add: demo_materialize_two)
qed

theorem materialize_strict_capacity_witness:
  "fst (materialize demo_reader
     (demo_collection demo_files (Some 2) True
        \<lparr>max_size = Some 2, entries = [(''s0'', demo_adata 10)]\<rparr>) (Indices [3, 1, 4])) =
     Inl CacheCapacityError \<and>
   fst (materialize demo_reader
     (demo_collection demo_files (Some 2) True
        \<lparr>max_size = Some 2, entries = [(''s0'', demo_adata 10)]\<rparr>) (Indices [3, 4])) \<noteq>
     Inl CacheCapacityError"
proof -
  let ?d = "demo_collection demo_files (Some 2) True
        \<lparr>max_size = Some 2, entries = [(''s0'', demo_adata 10)]\<rparr>"
  have f: "cache_size_strictly_enforced ?d \<and> max_cache_size ?d = Some 2"
    by (simp add: demo_collection_def)
  from f materialize_strict_capacity [of ?d 2 demo_reader "Indices [3, 1, 4]"]
  have 1: "fst (materialize demo_reader ?d (Indices [3, 1, 4])) = Inl CacheCapacityError"
    by (simp add: indices_of_def)
  from f materialize_strict_capacity [of ?d 2 demo_reader "Indices [3, 4]"]
  have 2: "fst (materialize demo_reader ?d (Indices [3, 4])) \<noteq> Inl CacheCapacityError"
    by (simp add: indices_of_def)
  from 1 2 show ?thesis by blast
qed

section \<open>The order of fetches\<close>

lemma fetch_pass_pass:
  "fetch_pass want r shards eis out c = (Inr out', c', evs) \<Longrightarrow>
   \<exists>shs. map (list_getitem shards) (map snd eis) = map Inr shs \<and> pass want r shs c c' evs"
proof (induction eis arbitrary: out c out' c' evs)
  case Nil
  then show ?case by (auto intro: pass_done)
next
  case (Cons ei eis)
  obtain i idx where ei: "ei = (i, idx)" by (cases ei)
  show ?case
  proof (cases "list_getitem shards idx")
    case (Inl e)
    with Cons.prems show ?thesis by (simp add: ei)
  next
    case (Inr sh)
    show ?thesis
    proof (cases "fst (cached sh c) = want")
      case False
      with Cons.prems Inr have "fetch_pass want r shards eis out c = (Inr out', c', evs)"
        by (simp add: ei cached_def LRU_contains_def)
      from Cons.IH [OF this] obtain shs where
        "map (list_getitem shards) (map snd eis) = map Inr shs" and "pass want r shs c c' evs"
        by blast
      with False Inr have "map (list_getitem shards) (map snd (ei # eis)) = map Inr (sh # shs)"
        and "pass want r (sh # shs) c c' evs"
        by (simp_all add: ei pass_skip)
      then show ?thesis by blast
    next
      case True
      obtain x c2 evs1 where a: "adata r sh c = (x, c2, evs1)" by (cases "adata r sh c") auto
      show ?thesis
      proof (cases x)
        case (Inl e)
        with True Inr a Cons.prems show ?thesis by (simp add: ei cached_def LRU_contains_def)
      next
        case r: (Inr y)
        obtain x3 c3 evs3 where
          f: "fetch_pass want r shards eis (out[i := Some y]) c2 = (x3, c3, evs3)"
          by (cases "fetch_pass want r shards eis (out[i := Some y]) c2") auto
        with True Inr a r Cons.prems
        have x3: "x3 = Inr out'" and c3: "c3 = c'" and evs: "evs = evs1 @ evs3"
          by (simp_all add: ei cached_def LRU_contains_def)
        from Cons.IH [OF f [unfolded x3 c3]] obtain shs where
          m: "map (list_getitem shards) (map snd eis) = map Inr shs" and p: "pass want r shs c2 c' evs3"
          by blast
        from pass_fetch [OF True a [unfolded r] p] m Inr
        have "map (list_getitem shards) (map snd (ei # eis)) = map Inr (sh # shs)"
          and "pass want r (sh # shs) c c' evs"
          by (simp_all add: ei evs)
        then show ?thesis by blast
      qed
    qed
  qed
qed

lemma requested_resolved:
  "map (list_getitem shards) idxs = map Inr shs \<Longrightarrow> requested shards idxs = map filename shs"
  by (induction idxs arbitrary: shs) (auto simp: requested_def)

lemma map_Inr_inject: "map Inr xs = map Inr ys \<Longrightarrow> xs = ys"
  by (simp add: inj_map_eq_map)

lemma reads_of_append: "reads_of (xs @ ys) = reads_of xs @ reads_of ys"
  by (induction xs rule: reads_of.induct) simp_all

lemma evicted_of_append: "evicted_of (xs @ ys) = evicted_of xs @ evicted_of ys"
  by (induction xs rule: evicted_of.induct) simp_all

lemma reads_of_hits [simp]: "reads_of (map Hit fs) = []"
  by (induction fs) simp_all

lemma evicted_of_hits [simp]: "evicted_of (map Hit fs) = []"
  by (induction fs) simp_all

lemma cached_resident: "fst (cached sh c) = resident c (filename sh)"
  by (simp add: cached_def LRU_contains_def resident_def eviction_order_def)

lemma resident_touch:
  "map_of (entries c) k = Some v \<Longrightarrow>
   resident (c\<lparr>entries := filter (\<lambda>e. fst e \<noteq> k) (entries c) @ [(k, v)]\<rparr>) k' = resident c k'"
proof -
  assume "map_of (entries c) k = Some v"
  then have "k \<in> fst ` set (entries c)" by (metis map_of_eq_None_iff option.distinct(1))
  then have "fst ` set (filter (\<lambda>e. fst e \<noteq> k) (entries c)) \<union> {k} = fst ` set (entries c)"
    by force
  then show ?thesis by (simp add: resident_def eviction_order_def)
qed

text \<open>What a successful \<^verbatim>\<open>adata\<close> does, by residence.\<close>

lemma adata_Inr_resident:
  assumes "resident c (filename sh)" and "adata r sh c = (Inr a, c2, evs1)"
  shows "map_of (entries c) (filename sh) = Some a \<and>
         c2 = c\<lparr>entries := filter (\<lambda>e. fst e \<noteq> filename sh) (entries c) @ [(filename sh, a)]\<rparr> \<and>
         evs1 = [Hit (filename sh)]"
proof -
  from assms(1) obtain v where v: "map_of (entries c) (filename sh) = Some v"
    by (auto simp: resident_map_of)
  from adata_hit [OF v, of r] assms(2) v show ?thesis by simp
qed

lemma adata_Inr_absent:
  assumes "\<not> resident c (filename sh)" and "adata r sh c = (Inr a, c2, evs1)"
  shows "c2 = snd (LRU_setitem c (filename sh) a) \<and>
         evs1 = Read (filename sh) # Insert (filename sh) #
           (case fst (LRU_setitem c (filename sh) a) of None \<Rightarrow> [] | Some k \<Rightarrow> [Evict k])"
proof (cases "r (filename sh)")
  case None
  with assms show ?thesis by (simp add: adata_unreadable)
next
  case (Some b)
  consider "n_obs sh \<noteq> adata_n_obs b"
    | "n_obs sh = adata_n_obs b" "\<not> conforms (lazy_schema sh) b"
    | "n_obs sh = adata_n_obs b" "conforms (lazy_schema sh) b" by blast
  then show ?thesis
  proof cases
    case 1
    with assms Some show ?thesis by (simp add: adata_size_mismatch)
  next
    case 2
    with assms Some show ?thesis by (simp add: adata_schema_mismatch)
  next
    case 3
    with assms Some adata_load [of c sh r b] show ?thesis by auto
  qed
qed

text \<open>The first pass: hits only, in the order of the indices; residence is unchanged.\<close>

lemma pass_True:
  "pass True r shs c c' evs \<Longrightarrow>
   evs = map Hit (filter (resident c) (map filename shs)) \<and>
   (\<forall>k. resident c' k = resident c k) \<and> max_size c' = max_size c"
proof (induction rule: pass.induct)
  case (pass_done c)
  then show ?case by simp
next
  case (pass_skip sh c shs c' evs)
  then show ?case by (simp add: cached_resident)
next
  case (pass_fetch sh c a c2 evs1 shs c' evs)
  from pass_fetch.hyps(1) have res: "resident c (filename sh)" by (simp add: cached_resident)
  from adata_Inr_resident [OF res pass_fetch.hyps(2)]
  have m: "map_of (entries c) (filename sh) = Some a"
    and c2: "c2 = c\<lparr>entries := filter (\<lambda>e. fst e \<noteq> filename sh) (entries c) @ [(filename sh, a)]\<rparr>"
    and e: "evs1 = [Hit (filename sh)]" by simp_all
  have same: "\<And>k. resident c2 k = resident c k" unfolding c2 using m by (rule resident_touch)
  have ms: "max_size c2 = max_size c" by (simp add: c2)
  from pass_fetch.IH same ms res e show ?case by simp
qed

lemma resident_setitem_other:
  "resident (snd (LRU_setitem c k v)) k' \<Longrightarrow> resident c k' \<or> k' = k"
proof -
  let ?es = "filter (\<lambda>e. fst e \<noteq> k) (entries c) @ [(k, v)]"
  assume "resident (snd (LRU_setitem c k v)) k'"
  then have "k' \<in> fst ` set ?es \<or> k' \<in> fst ` set (tl ?es)"
    by (auto simp: LRU_setitem_def Let_def resident_def eviction_order_def
        split: option.splits if_splits simp del: set_append)
  moreover have "set (tl ?es) \<subseteq> set ?es" by (metis list.set_sel(2) subsetI tl_Nil)
  ultimately have "k' \<in> fst ` set ?es" by auto
  then show ?thesis by (auto simp: resident_def eviction_order_def)
qed

text \<open>
  The second pass: no hit; the files read are among the requested ones, in their order,
  and include every requested file that was not resident.
\<close>

lemma pass_False:
  "pass False r shs c c' evs \<Longrightarrow>
   list_all (\<lambda>e. \<not> is_Hit e) evs \<and>
   subseq (reads_of evs) (map filename shs) \<and>
   (\<forall>sh \<in> set shs. \<not> resident c (filename sh) \<longrightarrow> filename sh \<in> set (reads_of evs))"
proof (induction rule: pass.induct)
  case (pass_done c)
  then show ?case by simp
next
  case (pass_skip sh c shs c' evs)
  then show ?case by (auto simp: cached_resident)
next
  case (pass_fetch sh c a c2 evs1 shs c' evs)
  from pass_fetch.hyps(1) have nres: "\<not> resident c (filename sh)" by (simp add: cached_resident)
  from adata_Inr_absent [OF nres pass_fetch.hyps(2)]
  have c2: "c2 = snd (LRU_setitem c (filename sh) a)"
    and e: "evs1 = Read (filename sh) # Insert (filename sh) #
           (case fst (LRU_setitem c (filename sh) a) of None \<Rightarrow> [] | Some k \<Rightarrow> [Evict k])"
    by simp_all
  have r1: "reads_of evs1 = [filename sh]" and h1: "list_all (\<lambda>e. \<not> is_Hit e) evs1"
    by (simp_all add: e split: option.splits)
  have later: "filename sh' \<in> set (reads_of (evs1 @ evs))"
    if "sh' \<in> set shs" and "\<not> resident c (filename sh')" for sh'
  proof (cases "resident c2 (filename sh')")
    case True
    with resident_setitem_other [of c "filename sh" a "filename sh'"] that(2) c2
    have "filename sh' = filename sh" by auto
    then show ?thesis by (simp add: reads_of_append r1)
  next
    case False
    with pass_fetch.IH that(1) show ?thesis by (simp add: reads_of_append)
  qed
  from pass_fetch.IH r1 h1 later show ?case
    by (auto simp: reads_of_append)
qed

section \<open>Requested shards are not evicted\<close>

lemma tail_in_all: "set ks \<subseteq> S \<Longrightarrow> tail_in S ks"
  by (induction ks) auto

lemma tail_in_touch: "tail_in S ks \<Longrightarrow> tail_in (insert k S) (filter (\<lambda>x. x \<noteq> k) ks @ [k])"
proof (induction ks)
  case Nil
  then show ?case by simp
next
  case (Cons x ks)
  show ?case
  proof (cases "x \<in> S")
    case True
    with Cons.prems have "set ks \<subseteq> S" by simp
    then have "set (filter (\<lambda>x. x \<noteq> k) (x # ks) @ [k]) \<subseteq> insert k S" using True by auto
    then show ?thesis by (rule tail_in_all)
  next
    case False
    with Cons.prems have "tail_in S ks" by simp
    from Cons.IH [OF this] False show ?thesis by simp
  qed
qed

lemma tail_in_snoc: "tail_in S ks \<Longrightarrow> k \<in> S \<Longrightarrow> tail_in S (ks @ [k])"
  by (induction ks) auto

lemma tail_in_tl: "tail_in S ks \<Longrightarrow> tail_in S (tl ks)"
  by (cases ks) (auto intro: tail_in_all split: if_splits)

lemma tail_in_hd: "tail_in S ks \<Longrightarrow> ks \<noteq> [] \<Longrightarrow> hd ks \<in> S \<Longrightarrow> set ks \<subseteq> S"
  by (cases ks) auto

lemma tail_in_cong: "(\<forall>k \<in> set ks. k \<in> S \<longleftrightarrow> k \<in> T) \<Longrightarrow> tail_in S ks = tail_in T ks"
  by (induction ks) auto

lemma eviction_order_touch:
  "map fst (filter (\<lambda>e. fst e \<noteq> k) es @ [(k, v)]) = filter (\<lambda>x. x \<noteq> k) (map fst es) @ [k]"
  by (simp add: filter_map comp_def)

lemma eviction_order_setitem:
  "eviction_order (snd (LRU_setitem c k v)) =
     (case max_size c of
        None \<Rightarrow> filter (\<lambda>x. x \<noteq> k) (eviction_order c) @ [k]
      | Some m \<Rightarrow>
          if m < Suc (length (filter (\<lambda>x. x \<noteq> k) (eviction_order c)))
          then tl (filter (\<lambda>x. x \<noteq> k) (eviction_order c) @ [k])
          else filter (\<lambda>x. x \<noteq> k) (eviction_order c) @ [k])"
  by (simp add: LRU_setitem_def Let_def eviction_order_def filter_map comp_def map_tl
      split: option.splits)

lemma evicted_setitem:
  "fst (LRU_setitem c k v) =
     (case max_size c of
        None \<Rightarrow> None
      | Some m \<Rightarrow>
          if m < Suc (length (filter (\<lambda>x. x \<noteq> k) (eviction_order c)))
          then Some (hd (filter (\<lambda>x. x \<noteq> k) (eviction_order c) @ [k]))
          else None)"
proof -
  have "fst (hd (filter (\<lambda>e. fst e \<noteq> k) (entries c) @ [(k, v)])) =
        hd (map fst (filter (\<lambda>e. fst e \<noteq> k) (entries c) @ [(k, v)]))"
    by (rule hd_map [symmetric]) simp
  then show ?thesis
    by (simp add: LRU_setitem_def Let_def eviction_order_def filter_map comp_def
        split: option.splits)
qed

lemma filter_absent: "k \<notin> set ks \<Longrightarrow> filter (\<lambda>x. x \<noteq> k) ks = ks"
  by (induction ks) auto

text \<open>
  Loading an absent key of \<open>S\<close> when \<open>S\<close> fits the capacity and sits at the recent end:
  no key of \<open>S\<close> is evicted.
\<close>

lemma setitem_protect:
  assumes t: "tail_in S (eviction_order c)" and d: "distinct (eviction_order c)"
    and k: "k \<in> S" and nr: "\<not> resident c k" and fin: "finite S"
    and cap: "\<forall>m. max_size c = Some m \<longrightarrow> card S \<le> m"
  shows "tail_in S (eviction_order (snd (LRU_setitem c k v))) \<and>
         distinct (eviction_order (snd (LRU_setitem c k v))) \<and>
         (\<forall>k' \<in> S. resident (snd (LRU_setitem c k v)) k' \<longleftrightarrow> resident c k' \<or> k' = k) \<and>
         (\<forall>e. fst (LRU_setitem c k v) = Some e \<longrightarrow> e \<notin> S)"
proof -
  let ?ks = "eviction_order c @ [k]"
  from nr have abs: "k \<notin> set (eviction_order c)" by (simp add: resident_def)
  then have f: "filter (\<lambda>x. x \<noteq> k) (eviction_order c) = eviction_order c" by (rule filter_absent)
  have t': "tail_in S ?ks" using t k by (rule tail_in_snoc)
  have d': "distinct ?ks" using d abs by simp
  have dist: "distinct (eviction_order (snd (LRU_setitem c k v)))" using d by (rule distinct_setitem)
  show ?thesis
  proof (cases "\<exists>m. max_size c = Some m \<and> m < length ?ks")
    case False
    then have eo: "eviction_order (snd (LRU_setitem c k v)) = ?ks"
      and ev: "fst (LRU_setitem c k v) = None"
      by (auto simp: eviction_order_setitem evicted_setitem f split: option.splits)
    from t' dist ev show ?thesis by (auto simp: eo resident_def)
  next
    case True
    then obtain m where m: "max_size c = Some m" and lt: "m < length ?ks" by blast
    then have eo: "eviction_order (snd (LRU_setitem c k v)) = tl ?ks"
      and ev: "fst (LRU_setitem c k v) = Some (hd ?ks)"
      by (simp_all add: eviction_order_setitem evicted_setitem f)
    have hd: "hd ?ks \<notin> S"
    proof
      assume "hd ?ks \<in> S"
      with t' have "set ?ks \<subseteq> S" by (rule_tac tail_in_hd) simp_all
      with fin have "card (set ?ks) \<le> card S" by (rule_tac card_mono)
      with d' have "length ?ks \<le> card S" by (simp add: distinct_card)
      with cap m lt show False by auto
    qed
    have mem: "k' \<in> set (tl ?ks) \<longleftrightarrow> k' \<in> set ?ks" if "k' \<in> S" for k'
    proof
      assume "k' \<in> set (tl ?ks)"
      then show "k' \<in> set ?ks" by (metis list.set_sel(2) tl_Nil)
    next
      assume "k' \<in> set ?ks"
      moreover from that hd have "k' \<noteq> hd ?ks" by auto
      ultimately show "k' \<in> set (tl ?ks)" by (cases ?ks) auto
    qed
    have "tail_in S (tl ?ks)" using t' by (rule tail_in_tl)
    with dist ev hd mem show ?thesis by (auto simp: eo resident_def simp del: tl_append2)
  qed
qed

lemma distinct_adata_hit:
  "distinct (eviction_order c) \<Longrightarrow>
   distinct (eviction_order (c\<lparr>entries := filter (\<lambda>e. fst e \<noteq> k) (entries c) @ [(k, v)]\<rparr>))"
  unfolding eviction_order_def by (simp add: distinct_touch del: map_append)

text \<open>After the first pass the resident requested files sit at the recent end.\<close>

lemma pass_True_tail:
  "pass True r shs c c' evs \<Longrightarrow> tail_in T (eviction_order c) \<Longrightarrow> distinct (eviction_order c) \<Longrightarrow>
   tail_in (T \<union> {f \<in> filename ` set shs. resident c f}) (eviction_order c') \<and>
   distinct (eviction_order c')"
proof (induction arbitrary: T rule: pass.induct)
  case (pass_done c)
  then show ?case by simp
next
  case (pass_skip sh c shs c' evs)
  from pass_skip.hyps(1) have "\<not> resident c (filename sh)" by (simp add: cached_resident)
  then have "T \<union> {f \<in> filename ` set (sh # shs). resident c f} =
      T \<union> {f \<in> filename ` set shs. resident c f}" by auto
  with pass_skip.IH [OF pass_skip.prems] show ?case by simp
next
  case (pass_fetch sh c a c2 evs1 shs c' evs)
  let ?f = "filename sh"
  from pass_fetch.hyps(1) have res: "resident c ?f" by (simp add: cached_resident)
  from adata_Inr_resident [OF res pass_fetch.hyps(2)]
  have m: "map_of (entries c) ?f = Some a"
    and c2: "c2 = c\<lparr>entries := filter (\<lambda>e. fst e \<noteq> ?f) (entries c) @ [(?f, a)]\<rparr>"
    by simp_all
  have same: "\<And>k. resident c2 k = resident c k" unfolding c2 using m by (rule resident_touch)
  have eo: "eviction_order c2 = filter (\<lambda>x. x \<noteq> ?f) (eviction_order c) @ [?f]"
    by (simp add: c2 eviction_order_def eviction_order_touch del: map_append)
  have t2: "tail_in (insert ?f T) (eviction_order c2)"
    unfolding eo using pass_fetch.prems(1) by (rule tail_in_touch)
  have d2: "distinct (eviction_order c2)"
    unfolding c2 using pass_fetch.prems(2) by (rule distinct_adata_hit)
  have "insert ?f T \<union> {f \<in> filename ` set shs. resident c2 f} =
      T \<union> {f \<in> filename ` set (sh # shs). resident c f}"
    using res by (auto simp: same)
  with pass_fetch.IH [OF t2 d2] show ?case by simp
qed

text \<open>
  The second pass, when the requested files fit the capacity and the resident ones sit
  at the recent end: every file is read at most once, exactly the requested files that
  were not resident are read, none of the requested files is evicted, and all of them
  are resident at the end.
\<close>

lemma pass_False_protect:
  "pass False r shs c c' evs \<Longrightarrow>
   tail_in S (eviction_order c) \<Longrightarrow> distinct (eviction_order c) \<Longrightarrow>
   filename ` set shs \<subseteq> S \<Longrightarrow> finite S \<Longrightarrow> (\<forall>m. max_size c = Some m \<longrightarrow> card S \<le> m) \<Longrightarrow>
   (\<forall>k \<in> S. resident c k \<longrightarrow> resident c' k) \<and>
   (\<forall>sh \<in> set shs. resident c' (filename sh)) \<and>
   set (evicted_of evs) \<inter> S = {} \<and>
   set (reads_of evs) = {f \<in> filename ` set shs. \<not> resident c f} \<and>
   distinct (reads_of evs)"
proof (induction rule: pass.induct)
  case (pass_done c)
  then show ?case by simp
next
  case (pass_skip sh c shs c' evs)
  from pass_skip.hyps(1) have res: "resident c (filename sh)" by (simp add: cached_resident)
  from pass_skip.prems have sub: "filename ` set shs \<subseteq> S" and inS: "filename sh \<in> S" by auto
  note IH = pass_skip.IH [OF pass_skip.prems(1,2) sub pass_skip.prems(4,5)]
  from res have "{f \<in> filename ` set (sh # shs). \<not> resident c f} =
      {f \<in> filename ` set shs. \<not> resident c f}" by auto
  with IH res inS show ?case by auto
next
  case (pass_fetch sh c a c2 evs1 shs c' evs)
  let ?f = "filename sh"
  from pass_fetch.hyps(1) have nres: "\<not> resident c ?f" by (simp add: cached_resident)
  from pass_fetch.prems have sub: "filename ` set shs \<subseteq> S" and inS: "?f \<in> S" by auto
  from adata_Inr_absent [OF nres pass_fetch.hyps(2)]
  have c2: "c2 = snd (LRU_setitem c ?f a)"
    and e: "evs1 = Read ?f # Insert ?f #
           (case fst (LRU_setitem c ?f a) of None \<Rightarrow> [] | Some k \<Rightarrow> [Evict k])"
    by simp_all
  from setitem_protect [OF pass_fetch.prems(1,2) inS nres pass_fetch.prems(4,5), of a]
  have t2: "tail_in S (eviction_order c2)" and d2: "distinct (eviction_order c2)"
    and r2: "\<forall>k' \<in> S. resident c2 k' \<longleftrightarrow> resident c k' \<or> k' = ?f"
    and ev: "\<forall>e. fst (LRU_setitem c ?f a) = Some e \<longrightarrow> e \<notin> S"
    by (simp_all add: c2)
  have ms: "max_size c2 = max_size c" by (simp add: c2)
  from pass_fetch.prems(5) ms have cap2: "\<forall>m. max_size c2 = Some m \<longrightarrow> card S \<le> m" by simp
  note IH = pass_fetch.IH [OF t2 d2 sub pass_fetch.prems(4) cap2]
  have r1: "reads_of evs1 = [?f]" by (simp add: e split: option.splits)
  have e1: "set (evicted_of evs1) \<inter> S = {}" using ev by (auto simp: e split: option.splits)
  have 1: "\<forall>k \<in> S. resident c k \<longrightarrow> resident c' k" using IH r2 by blast
  have 2: "\<forall>sh' \<in> set (sh # shs). resident c' (filename sh')" using IH r2 inS by auto
  have 3: "set (evicted_of (evs1 @ evs)) \<inter> S = {}"
    using IH e1 by (auto simp: evicted_of_append)
  have "{f \<in> filename ` set shs. \<not> resident c2 f} =
      {f \<in> filename ` set shs. \<not> resident c f} - {?f}" using r2 sub by auto
  with IH nres have 4: "set (reads_of (evs1 @ evs)) = {f \<in> filename ` set (sh # shs). \<not> resident c f}"
    by (auto simp: reads_of_append r1)
  have "?f \<notin> set (reads_of evs)" using IH r2 inS by auto
  with IH have 5: "distinct (reads_of (evs1 @ evs))" by (simp add: reads_of_append r1)
  from 1 2 3 4 5 show ?case by blast
qed

section \<open>The two passes of \<^verbatim>\<open>materialize\<close>\<close>

lemma materialize_Inr:
  assumes "materialize r coll ia = (Inr out, coll', evs)"
  shows "\<exists>out1 c1 evs1 c2 evs2.
           fetch_pass True r (adatas coll) (enumerate 0 (indices_of ia))
             (replicate (length (indices_of ia)) None) (cache coll) = (Inr out1, c1, evs1) \<and>
           fetch_pass False r (adatas coll) (enumerate 0 (indices_of ia)) out1 c1 =
             (Inr out, c2, evs2) \<and>
           coll' = coll\<lparr>cache := c2\<rparr> \<and> evs = evs1 @ evs2"
proof (cases "strict_check coll (length (indices_of ia))")
  case (Some e)
  with assms show ?thesis by (simp add: materialize_def)
next
  case None
  let ?eis = "enumerate 0 (indices_of ia)"
  let ?out = "replicate (length (indices_of ia)) None"
  obtain x c1 evs1 where p1: "fetch_pass True r (adatas coll) ?eis ?out (cache coll) = (x, c1, evs1)"
    by (cases "fetch_pass True r (adatas coll) ?eis ?out (cache coll)") auto
  show ?thesis
  proof (cases x)
    case (Inl e)
    with None p1 assms show ?thesis by (simp add: materialize_def)
  next
    case (Inr out1)
    obtain x2 c2 evs2 where
      p2: "fetch_pass False r (adatas coll) ?eis out1 c1 = (x2, c2, evs2)"
      by (cases "fetch_pass False r (adatas coll) ?eis out1 c1") auto
    with None p1 Inr assms have "x2 = Inr out" and "coll' = coll\<lparr>cache := c2\<rparr>" and "evs = evs1 @ evs2"
      by (simp_all add: materialize_def)
    with p1 p2 Inr show ?thesis by blast
  qed
qed

text \<open>Whatever the outcome, the first pass only hits and the second pass never hits.\<close>

lemma adata_events:
  "list_all (\<lambda>e. is_Hit e = resident c (filename sh)) (snd (snd (adata r sh c)))"
proof (cases "map_of (entries c) (filename sh)")
  case None
  then have nr: "\<not> resident c (filename sh)" by (simp add: resident_map_of)
  then have "LRU_getitem c (filename sh) = (Inl KeyError, c)" by (rule LRU_getitem_miss)
  with nr show ?thesis
    by (simp add: adata_def split: option.splits prod.splits)
next
  case (Some a)
  then have "resident c (filename sh)" by (auto simp: resident_map_of)
  with Some show ?thesis by (simp add: adata_hit)
qed

lemma fetch_pass_events:
  "list_all (\<lambda>e. is_Hit e = want) (snd (snd (fetch_pass want r shards eis out c)))"
proof (induction eis arbitrary: out c)
  case Nil
  then show ?case by simp
next
  case (Cons ei eis)
  obtain i idx where ei: "ei = (i, idx)" by (cases ei)
  show ?case
  proof (cases "list_getitem shards idx")
    case (Inl e)
    then show ?thesis by (simp add: ei)
  next
    case (Inr sh)
    show ?thesis
    proof (cases "fst (cached sh c) = want")
      case False
      with Cons.IH [of out c] Inr show ?thesis
        by (simp add: ei cached_def LRU_contains_def)
    next
      case True
      obtain x c2 evs1 where a: "adata r sh c = (x, c2, evs1)" by (cases "adata r sh c") auto
      from True adata_events [of c sh r] a have h: "list_all (\<lambda>e. is_Hit e = want) evs1"
        by (simp add: cached_resident)
      show ?thesis
      proof (cases x)
        case (Inl e)
        with True Inr a h show ?thesis by (simp add: ei cached_def LRU_contains_def)
      next
        case r: (Inr y)
        obtain x3 c3 evs3 where
          f: "fetch_pass want r shards eis (out[i := Some y]) c2 = (x3, c3, evs3)"
          by (cases "fetch_pass want r shards eis (out[i := Some y]) c2") auto
        with Cons.IH [of "out[i := Some y]" c2] have "list_all (\<lambda>e. is_Hit e = want) evs3" by simp
        with True Inr a r f h show ?thesis by (simp add: ei cached_def LRU_contains_def)
      qed
    qed
  qed
qed

lemma materialize_hits_first:
  "\<exists>evs1 evs2. snd (snd (materialize r coll ia)) = evs1 @ evs2 \<and>
     list_all is_Hit evs1 \<and> list_all (\<lambda>e. \<not> is_Hit e) evs2"
proof (cases "strict_check coll (length (indices_of ia))")
  case (Some e)
  then have "snd (snd (materialize r coll ia)) = [] @ [] \<and> list_all is_Hit [] \<and>
      list_all (\<lambda>e. \<not> is_Hit e) []" by (simp add: materialize_def)
  then show ?thesis by blast
next
  case None
  let ?eis = "enumerate 0 (indices_of ia)"
  let ?out = "replicate (length (indices_of ia)) None"
  obtain x c1 evs1 where p1: "fetch_pass True r (adatas coll) ?eis ?out (cache coll) = (x, c1, evs1)"
    by (cases "fetch_pass True r (adatas coll) ?eis ?out (cache coll)") auto
  with fetch_pass_events [of True r "adatas coll" ?eis ?out "cache coll"]
  have h1: "list_all is_Hit evs1" by simp
  show ?thesis
  proof (cases x)
    case (Inl e)
    with None p1 h1 have "snd (snd (materialize r coll ia)) = evs1 @ [] \<and> list_all is_Hit evs1 \<and>
      list_all (\<lambda>e. \<not> is_Hit e) []"
      by (simp add: materialize_def)
    then show ?thesis by blast
  next
    case (Inr out1)
    obtain x2 c2 evs2 where
      p2: "fetch_pass False r (adatas coll) ?eis out1 c1 = (x2, c2, evs2)"
      by (cases "fetch_pass False r (adatas coll) ?eis out1 c1") auto
    with fetch_pass_events [of False r "adatas coll" ?eis out1 c1]
    have h2: "list_all (\<lambda>e. \<not> is_Hit e) evs2" by simp
    from None p1 Inr p2 have "snd (snd (materialize r coll ia)) = evs1 @ evs2"
      by (simp add: materialize_def)
    with h1 h2 show ?thesis by blast
  qed
qed

lemma tail_in_empty: "tail_in {} ks"
  by (induction ks) simp_all

text \<open>The order of the fetches of a call that returns.\<close>

lemma materialize_order:
  assumes "materialize r coll ia = (Inr out, coll', evs)"
  defines "files \<equiv> requested (adatas coll) (indices_of ia)"
  shows "\<exists>evs2. evs = map Hit (filter (resident (cache coll)) files) @ evs2 \<and>
           list_all (\<lambda>e. \<not> is_Hit e) evs2 \<and> reads_of evs = reads_of evs2"
    and "subseq (reads_of evs) files"
    and "\<forall>f \<in> set files. \<not> resident (cache coll) f \<longrightarrow> f \<in> set (reads_of evs)"
    and "distinct (eviction_order (cache coll)) \<Longrightarrow>
         \<forall>m. max_size (cache coll) = Some m \<longrightarrow> card (set files) \<le> m \<Longrightarrow>
         set (reads_of evs) = {f \<in> set files. \<not> resident (cache coll) f} \<and>
         distinct (reads_of evs) \<and>
         set (evicted_of evs) \<inter> set files = {} \<and>
         (\<forall>f \<in> set files. resident (cache coll') f)"
proof -
  let ?eis = "enumerate 0 (indices_of ia)"
  from materialize_Inr [OF assms(1)] obtain out1 c1 evs1 c2 evs2 where
    p1: "fetch_pass True r (adatas coll) ?eis (replicate (length (indices_of ia)) None) (cache coll) =
           (Inr out1, c1, evs1)"
    and p2: "fetch_pass False r (adatas coll) ?eis out1 c1 = (Inr out, c2, evs2)"
    and coll': "coll' = coll\<lparr>cache := c2\<rparr>" and evs: "evs = evs1 @ evs2"
    by blast
  have idx: "map snd ?eis = indices_of ia" by (simp add: map_snd_enumerate)
  from fetch_pass_pass [OF p1] obtain shs where
    m1: "map (list_getitem (adatas coll)) (indices_of ia) = map Inr shs"
    and q1: "pass True r shs (cache coll) c1 evs1"
    unfolding idx by blast
  from fetch_pass_pass [OF p2] obtain shs' where
    m2: "map (list_getitem (adatas coll)) (indices_of ia) = map Inr shs'"
    and q2': "pass False r shs' c1 c2 evs2"
    unfolding idx by blast
  from m1 m2 have "shs' = shs" by (simp add: map_Inr_inject)
  with q2' have q2: "pass False r shs c1 c2 evs2" by simp
  have files: "files = map filename shs"
    unfolding files_def using m1 by (rule requested_resolved)
  from pass_True [OF q1] have e1: "evs1 = map Hit (filter (resident (cache coll)) files)"
    and same: "\<And>k. resident c1 k = resident (cache coll) k"
    and ms: "max_size c1 = max_size (cache coll)"
    by (simp_all add: files)
  from pass_False [OF q2] have nh: "list_all (\<lambda>e. \<not> is_Hit e) evs2"
    and sub: "subseq (reads_of evs2) files"
    and all: "\<forall>sh \<in> set shs. \<not> resident c1 (filename sh) \<longrightarrow> filename sh \<in> set (reads_of evs2)"
    by (simp_all add: files)
  have rd: "reads_of evs = reads_of evs2" by (simp add: evs e1 reads_of_append)
  have evd: "evicted_of evs = evicted_of evs2" by (simp add: evs e1 evicted_of_append)
  from e1 nh rd show "\<exists>evs2. evs = map Hit (filter (resident (cache coll)) files) @ evs2 \<and>
           list_all (\<lambda>e. \<not> is_Hit e) evs2 \<and> reads_of evs = reads_of evs2"
    by (auto simp: evs)
  from sub rd show "subseq (reads_of evs) files" by simp
  from all show "\<forall>f \<in> set files. \<not> resident (cache coll) f \<longrightarrow> f \<in> set (reads_of evs)"
    by (auto simp: files same rd)
  assume d: "distinct (eviction_order (cache coll))"
    and cap: "\<forall>m. max_size (cache coll) = Some m \<longrightarrow> card (set files) \<le> m"
  let ?S = "set files"
  have S: "filename ` set shs = ?S" by (simp add: files)
  from pass_True_tail [OF q1 tail_in_empty d]
  have t1: "tail_in ({} \<union> {f \<in> filename ` set shs. resident (cache coll) f}) (eviction_order c1)"
    and d1: "distinct (eviction_order c1)" by simp_all
  have "\<forall>k \<in> set (eviction_order c1).
      k \<in> ?S \<longleftrightarrow> k \<in> {} \<union> {f \<in> filename ` set shs. resident (cache coll) f}"
    using same by (auto simp: S resident_def)
  from tail_in_cong [OF this] t1 have tS: "tail_in ?S (eviction_order c1)" by simp
  from cap ms have cap1: "\<forall>m. max_size c1 = Some m \<longrightarrow> card ?S \<le> m" by simp
  from pass_False_protect [OF q2 tS d1 _ _ cap1] S
  have "(\<forall>sh \<in> set shs. resident c2 (filename sh)) \<and>
     set (evicted_of evs2) \<inter> ?S = {} \<and>
     set (reads_of evs2) = {f \<in> filename ` set shs. \<not> resident c1 f} \<and>
     distinct (reads_of evs2)" by simp
  then show "set (reads_of evs) = {f \<in> set files. \<not> resident (cache coll) f} \<and>
         distinct (reads_of evs) \<and>
         set (evicted_of evs) \<inter> set files = {} \<and>
         (\<forall>f \<in> set files. resident (cache coll') f)"
    by (auto simp: rd evd S [symmetric] same coll')
qed

lemma subseq_set: "subseq xs ys \<Longrightarrow> set xs \<subseteq> set ys"
  by (auto elim: list_emb_set)

lemma subseq_filter_unique:
  "subseq xs ys \<Longrightarrow> distinct ys \<Longrightarrow> set xs = {y \<in> set ys. P y} \<Longrightarrow> xs = filter P ys"
proof (induction rule: list_emb.induct)
  case (list_emb_Nil ys)
  then show ?case by (auto simp: filter_empty_conv)
next
  case (list_emb_Cons xs ys y)
  from list_emb_Cons.hyps have "set xs \<subseteq> set ys" by (rule subseq_set)
  with list_emb_Cons.prems have "\<not> P y" and "set xs = {z \<in> set ys. P z}" by auto
  with list_emb_Cons.IH list_emb_Cons.prems show ?case by simp
next
  case (list_emb_Cons2 x y xs ys)
  from list_emb_Cons2.hyps have sub: "set xs \<subseteq> set ys" by (auto dest: subseq_set)
  from list_emb_Cons2.hyps have xy: "x = y" by simp
  from list_emb_Cons2.prems xy have py: "P y" by auto
  have "set xs = {z \<in> set ys. P z}"
  proof
    show "set xs \<subseteq> {z \<in> set ys. P z}" using sub list_emb_Cons2.prems(2) by auto
    show "{z \<in> set ys. P z} \<subseteq> set xs" using list_emb_Cons2.prems xy by auto
  qed
  with list_emb_Cons2.IH list_emb_Cons2.prems have "xs = filter P ys" by simp
  with xy py show ?case by simp
qed

lemma demo_three_requested:
  "requested (adatas (demo_collection [''s0'', ''s1'', ''s2''] (Some 2) True c)) [0, 1] = [''s0'', ''s1'']"
  "requested (adatas (demo_collection [''s0'', ''s1'', ''s2''] (Some 2) True c)) [1, 0] = [''s1'', ''s0'']"
  by (simp_all add: requested_def demo_collection_def list_getitem_def)

lemma demo_query_A_B:
  "materialize demo_reader
     (demo_collection [''s0'', ''s1'', ''s2''] (Some 2) True
        \<lparr>max_size = Some 2, entries = [(''s0'', demo_adata 10), (''s2'', demo_adata 10)]\<rparr>)
     (Indices [0, 1]) =
   (Inr [Some (demo_adata 10), Some (demo_adata 10)],
    demo_collection [''s0'', ''s1'', ''s2''] (Some 2) True
      \<lparr>max_size = Some 2, entries = [(''s0'', demo_adata 10), (''s1'', demo_adata 10)]\<rparr>,
    [Hit ''s0'', Read ''s1'', Insert ''s1'', Evict ''s2''])"
  by code_simp

lemma demo_query_B_A:
  "materialize demo_reader
     (demo_collection [''s0'', ''s1'', ''s2''] (Some 2) True
        \<lparr>max_size = Some 2, entries = [(''s0'', demo_adata 10), (''s2'', demo_adata 10)]\<rparr>)
     (Indices [1, 0]) =
   (Inr [Some (demo_adata 10), Some (demo_adata 10)],
    demo_collection [''s0'', ''s1'', ''s2''] (Some 2) True
      \<lparr>max_size = Some 2, entries = [(''s0'', demo_adata 10), (''s1'', demo_adata 10)]\<rparr>,
    [Hit ''s0'', Read ''s1'', Insert ''s1'', Evict ''s2''])"
  by code_simp

text \<open>
  C1. Every call of \<^verbatim>\<open>materialize\<close>, whatever its outcome, first only hits the cache and
  then never hits it again. When the call returns: the hits are exactly the requested
  files resident at the call, in the order of the indices; afterwards come the reads,
  of requested files in the order of the indices, and every requested file that was not
  resident is read. When moreover the requested files fit the capacity (or the capacity
  is unset), exactly the non-resident requested files are read, each once (for indices
  naming distinct files: the non-resident ones in the order of the indices), no
  requested file is evicted and all of them are resident at the end. In the scenario of
  three shards and capacity 2 with the files of shards 0 and 2 resident, shard 0 being
  the least recently used, a query touching shards 0 and 1, in either order, hits shard
  0, then loads shard 1 and evicts shard 2: shard 0 is still resident.
\<close>

theorem materialize_two_passes:
  "(\<exists>evs1 evs2. snd (snd (materialize r coll ia)) = evs1 @ evs2 \<and>
      list_all is_Hit evs1 \<and> list_all (\<lambda>e. \<not> is_Hit e) evs2) \<and>
   (materialize r coll ia = (Inr out, coll', evs) \<longrightarrow>
      (\<exists>evs2. evs = map Hit (filter (resident (cache coll))
                        (requested (adatas coll) (indices_of ia))) @ evs2 \<and>
         list_all (\<lambda>e. \<not> is_Hit e) evs2 \<and> reads_of evs = reads_of evs2) \<and>
      subseq (reads_of evs) (requested (adatas coll) (indices_of ia)) \<and>
      (\<forall>f \<in> set (requested (adatas coll) (indices_of ia)).
         \<not> resident (cache coll) f \<longrightarrow> f \<in> set (reads_of evs)) \<and>
      (distinct (eviction_order (cache coll)) \<and>
       (\<forall>m. max_size (cache coll) = Some m \<longrightarrow>
          card (set (requested (adatas coll) (indices_of ia))) \<le> m) \<longrightarrow>
         set (reads_of evs) =
           {f \<in> set (requested (adatas coll) (indices_of ia)). \<not> resident (cache coll) f} \<and>
         distinct (reads_of evs) \<and>
         (distinct (requested (adatas coll) (indices_of ia)) \<longrightarrow>
            reads_of evs = filter (\<lambda>f. \<not> resident (cache coll) f)
                             (requested (adatas coll) (indices_of ia))) \<and>
         set (evicted_of evs) \<inter> set (requested (adatas coll) (indices_of ia)) = {} \<and>
         (\<forall>f \<in> set (requested (adatas coll) (indices_of ia)). resident (cache coll') f))) \<and>
   materialize demo_reader
     (demo_collection [''s0'', ''s1'', ''s2''] (Some 2) True
        \<lparr>max_size = Some 2, entries = [(''s0'', demo_adata 10), (''s2'', demo_adata 10)]\<rparr>)
     (Indices [0, 1]) =
   (Inr [Some (demo_adata 10), Some (demo_adata 10)],
    demo_collection [''s0'', ''s1'', ''s2''] (Some 2) True
      \<lparr>max_size = Some 2, entries = [(''s0'', demo_adata 10), (''s1'', demo_adata 10)]\<rparr>,
    [Hit ''s0'', Read ''s1'', Insert ''s1'', Evict ''s2'']) \<and>
   materialize demo_reader
     (demo_collection [''s0'', ''s1'', ''s2''] (Some 2) True
        \<lparr>max_size = Some 2, entries = [(''s0'', demo_adata 10), (''s2'', demo_adata 10)]\<rparr>)
     (Indices [1, 0]) =
   (Inr [Some (demo_adata 10), Some (demo_adata 10)],
    demo_collection [''s0'', ''s1'', ''s2''] (Some 2) True
      \<lparr>max_size = Some 2, entries = [(''s0'', demo_adata 10), (''s1'', demo_adata 10)]\<rparr>,
    [Hit ''s0'', Read ''s1'', Insert ''s1'', Evict ''s2''])"
proof -
  let ?files = "requested (adatas coll) (indices_of ia)"
  have general: "(\<exists>evs2. evs = map Hit (filter (resident (cache coll)) ?files) @ evs2 \<and>
         list_all (\<lambda>e. \<not> is_Hit e) evs2 \<and> reads_of evs = reads_of evs2) \<and>
      subseq (reads_of evs) ?files \<and>
      (\<forall>f \<in> set ?files. \<not> resident (cache coll) f \<longrightarrow> f \<in> set (reads_of evs)) \<and>
      (distinct (eviction_order (cache coll)) \<and>
       (\<forall>m. max_size (cache coll) = Some m \<longrightarrow> card (set ?files) \<le> m) \<longrightarrow>
         set (reads_of evs) = {f \<in> set ?files. \<not> resident (cache coll) f} \<and>
         distinct (reads_of evs) \<and>
         (distinct ?files \<longrightarrow>
            reads_of evs = filter (\<lambda>f. \<not> resident (cache coll) f) ?files) \<and>
         set (evicted_of evs) \<inter> set ?files = {} \<and>
         (\<forall>f \<in> set ?files. resident (cache coll') f))"
    if m: "materialize r coll ia = (Inr out, coll', evs)"
  proof -
    note o = materialize_order [OF m]
    have fit: "set (reads_of evs) = {f \<in> set ?files. \<not> resident (cache coll) f} \<and>
         distinct (reads_of evs) \<and>
         (distinct ?files \<longrightarrow>
            reads_of evs = filter (\<lambda>f. \<not> resident (cache coll) f) ?files) \<and>
         set (evicted_of evs) \<inter> set ?files = {} \<and>
         (\<forall>f \<in> set ?files. resident (cache coll') f)"
      if d: "distinct (eviction_order (cache coll))"
        and cap: "\<forall>m. max_size (cache coll) = Some m \<longrightarrow> card (set ?files) \<le> m"
    proof -
      note p = o(4) [OF d cap]
      from p have s: "set (reads_of evs) = {f \<in> set ?files. \<not> resident (cache coll) f}" by blast
      have "reads_of evs = filter (\<lambda>f. \<not> resident (cache coll) f) ?files" if "distinct ?files"
        using o(2) that s by (rule subseq_filter_unique)
      with p show ?thesis by blast
    qed
    from o(1) o(2) o(3) fit show ?thesis by blast
  qed
  from materialize_hits_first [of r coll ia] general demo_query_A_B demo_query_B_A
  show ?thesis by blast
qed

theorem materialize_two_passes_witness:
  "resident \<lparr>max_size = Some 2, entries = [(''s0'', demo_adata 10), (''s1'', demo_adata 10)]\<rparr> ''s0'' \<and>
   reads_of [Hit ''s0'', Read ''s1'', Insert ''s1'', Evict ''s2''] = [''s1''] \<and>
   ''s0'' \<notin> set (evicted_of [Hit ''s0'', Read ''s1'', Insert ''s1'', Evict ''s2''])"
proof -
  let ?before = "\<lparr>max_size = Some 2, entries = [(''s0'', demo_adata 10), (''s2'', demo_adata 10)]\<rparr>
      :: shard_cache"
  let ?after = "\<lparr>max_size = Some 2, entries = [(''s0'', demo_adata 10), (''s1'', demo_adata 10)]\<rparr>
      :: shard_cache"
  let ?coll = "demo_collection [''s0'', ''s1'', ''s2''] (Some 2) True"
  let ?evs = "[Hit ''s0'', Read ''s1'', Insert ''s1'', Evict ''s2'']"
  have d: "distinct (eviction_order (cache (?coll ?before)))"
    by (simp add: demo_collection_def eviction_order_def)
  have cap: "\<forall>m. max_size (cache (?coll ?before)) = Some m \<longrightarrow>
      card (set (requested (adatas (?coll ?before)) (indices_of (Indices [0, 1])))) \<le> m"
    by (simp add: indices_of_def demo_three_requested) (simp add: demo_collection_def)
  have df: "distinct (requested (adatas (?coll ?before)) (indices_of (Indices [0, 1])))"
    by (simp add: indices_of_def demo_three_requested)
  note t = materialize_two_passes [where r = demo_reader and coll = "?coll ?before"
      and ia = "Indices [0, 1]" and out = "[Some (demo_adata 10), Some (demo_adata 10)]"
      and coll' = "?coll ?after" and evs = ?evs]
  from t demo_query_A_B d cap df
  have "reads_of ?evs = filter (\<lambda>f. \<not> resident (cache (?coll ?before)) f)
          (requested (adatas (?coll ?before)) (indices_of (Indices [0, 1])))"
    and "set (evicted_of ?evs) \<inter>
          set (requested (adatas (?coll ?before)) (indices_of (Indices [0, 1]))) = {}"
    and "\<forall>f \<in> set (requested (adatas (?coll ?before)) (indices_of (Indices [0, 1]))).
          resident (cache (?coll ?after)) f"
    by blast+
  then show ?thesis
    by (simp add: indices_of_def demo_three_requested)
       (simp add: demo_collection_def resident_def eviction_order_def)
qed

end
